theory Spec2Isabelle
  imports
    Main
    "HOL-Library.Sublist"
    "HOL-Library.Char_ord"
    "HOL-Library.List_Lexorder"
    "HOL-Library.Multiset"
begin

section \<open>code-collector.py: ignore rules, tree rendering and content emission\<close>

text \<open>
  The program walks a directory, filters entries with \<open>should_ignore\<close>, and writes
  one document: a header, an optional tree listing, and one section per file.

  Python \<open>str\<close> values are modelled as \<open>string\<close> holding the UTF-8 bytes of the text
  (the encoding the output document is written in). Suffix tests, equality and
  lexicographic comparison agree on code points and on their UTF-8 bytes.
  Paths follow \<open>posixpath\<close>: the separator is \<open>/\<close>.
\<close>

subsection \<open>Paths\<close>

definition sep :: char where
  "sep = CHR ''/''"

text \<open>\<open>posixpath.join(a, b)\<close> with one component \<open>b\<close>.\<close>

definition path_join :: "string \<Rightarrow> string \<Rightarrow> string" where
  "path_join a b =
     (if prefix [sep] b then b
      else if a = [] \<or> suffix [sep] a then a @ b
      else a @ [sep] @ b)"

text \<open>\<open>posixpath.basename(p)\<close>: \<open>i = p.rfind('/') + 1; return p[i:]\<close>.\<close>

definition basename :: "string \<Rightarrow> string" where
  "basename p = rev (takeWhile (\<lambda>c. c \<noteq> sep) (rev p))"

text \<open>\<open>str.endswith\<close>.\<close>

definition endswith :: "string \<Rightarrow> string \<Rightarrow> bool" where
  "endswith s suf = suffix suf s"

subsection \<open>The pattern matcher\<close>

text \<open>
  \<open>pathspec.PathSpec\<close> comes from the \<open>pathspec\<close> package, outside the repository.
  A compiled pattern has an \<open>include\<close> flag, here \<open>include_flag\<close> (\<open>None\<close> for a comment
  line, \<open>False\<close> for a \<open>!\<close>-negated pattern), and a regular expression, taken as a
  parameter: the predicate \<open>matches\<close> on the path handed to \<open>match_file\<close>.
  \<open>PathSpec.match_file\<close> lets the last matching pattern decide, and \<open>PathSpec.__len__\<close>
  is the number of patterns, so a \<open>PathSpec\<close> without patterns is falsy.
\<close>

record pattern =
  include_flag :: "bool option"
  matches :: "string \<Rightarrow> bool"

type_synonym pathspec = "pattern list"

definition match_step :: "string \<Rightarrow> bool \<Rightarrow> pattern \<Rightarrow> bool" where
  "match_step file matched pat =
     (case include_flag pat of
        None \<Rightarrow> matched
      | Some inc \<Rightarrow> if matches pat file then inc else matched)"

definition match_file :: "pathspec \<Rightarrow> string \<Rightarrow> bool" where
  "match_file spec file = foldl (match_step file) False spec"

text \<open>Python truthiness of \<open>spec\<close>, which is \<open>None\<close> or a \<open>PathSpec\<close>.\<close>

definition truthy :: "pathspec option \<Rightarrow> bool" where
  "truthy spec = (case spec of None \<Rightarrow> False | Some s \<Rightarrow> s \<noteq> [])"

subsection \<open>The ignore predicate\<close>

definition should_ignore ::
  "string \<Rightarrow> pathspec option \<Rightarrow> string set \<Rightarrow> string set \<Rightarrow> bool" where
  "should_ignore rel_path spec extra_ignore_files extra_ignore_extensions =
     (if basename rel_path \<in> extra_ignore_files then True
      else if \<exists>ext \<in> extra_ignore_extensions. endswith rel_path ext then True
      else if truthy spec \<and> match_file (the spec) rel_path then True
      else False)"

text \<open>
  The three checks of \<open>should_ignore\<close> taken one at a time, and their evaluation in a
  given order, stopping at the first that holds. This follows the specification's
  wording ("logical OR, short-circuiting only for efficiency"), to be compared with
  \<open>should_ignore\<close>.
\<close>

datatype ignore_check = ByName | ByExtension | ByPattern

fun run_check ::
  "ignore_check \<Rightarrow> string \<Rightarrow> pathspec option \<Rightarrow> string set \<Rightarrow> string set \<Rightarrow> bool" where
  "run_check ByName p m N E = (basename p \<in> N)"
| "run_check ByExtension p m N E = (\<exists>ext \<in> E. endswith p ext)"
| "run_check ByPattern p m N E = (case m of None \<Rightarrow> False | Some s \<Rightarrow> match_file s p)"

fun first_hit ::
  "ignore_check list \<Rightarrow> string \<Rightarrow> pathspec option \<Rightarrow> string set \<Rightarrow> string set \<Rightarrow> bool" where
  "first_hit [] p m N E = False"
| "first_hit (c # cs) p m N E = (if run_check c p m N E then True else first_hit cs p m N E)"

subsection \<open>The file system\<close>

text \<open>
  The scan root is a finite tree, read once and unchanged during the run (the output
  document is taken to lie outside it). An entry that is not a directory carries
  whether \<open>os.path.isfile\<close> holds of it (a regular file or a link to one; not a broken
  link, a FIFO or a socket), the identity of the file that \<open>open\<close> reaches through it (two
  entries with one identity are one file under two names: a hard link, or a symbolic
  link and its target), and the result of
  \<open>io.open(path, "r", encoding="utf-8").read()\<close>: \<open>Inr\<close> the text, or \<open>Inl\<close> the text of the
  exception. A directory carries whether \<open>os.listdir\<close> and \<open>os.scandir\<close> succeed on it,
  whether it is a symbolic link (to a directory, whose content is then what the link
  resolves to), and its entries in the order the operating system lists them.
  Link cycles are outside this model.
\<close>

datatype node =
    File bool nat "string + string"
  | Dir bool bool "(string \<times> node) list"

text \<open>\<open>os.path.isdir\<close> and \<open>DirEntry.is_dir()\<close>, \<open>os.path.isfile\<close>, \<open>os.path.islink\<close>.\<close>

fun is_dir :: "node \<Rightarrow> bool" where
  "is_dir (File regular fid r) = False"
| "is_dir (Dir listable lnk content) = True"

fun is_file :: "node \<Rightarrow> bool" where
  "is_file (File regular fid r) = regular"
| "is_file (Dir listable lnk content) = False"

fun is_link :: "node \<Rightarrow> bool" where
  "is_link (File regular fid r) = False"
| "is_link (Dir listable lnk content) = lnk"

definition isdir_at :: "(string \<times> node) list \<Rightarrow> string \<Rightarrow> bool" where
  "isdir_at content name = (case map_of content name of None \<Rightarrow> False | Some nd \<Rightarrow> is_dir nd)"

definition isfile_at :: "(string \<times> node) list \<Rightarrow> string \<Rightarrow> bool" where
  "isfile_at content name = (case map_of content name of None \<Rightarrow> False | Some nd \<Rightarrow> is_file nd)"

text \<open>Reading a path as text; on a directory \<open>io.open\<close> raises.\<close>

fun read_text :: "node \<Rightarrow> string + string" where
  "read_text (File regular fid r) = r"
| "read_text (Dir listable lnk content) = Inl ''[Errno 21] Is a directory''"

text \<open>
  What the operating system guarantees of a directory: entry names are not empty,
  hold no separator, and are pairwise different.
\<close>

definition valid_name :: "string \<Rightarrow> bool" where
  "valid_name n = (n \<noteq> [] \<and> sep \<notin> set n)"

fun wf_node :: "node \<Rightarrow> bool" where
  "wf_node (File regular fid r) = True"
| "wf_node (Dir listable lnk content) =
     (distinct (map fst content) \<and> (\<forall>e \<in> set content. valid_name (fst e) \<and> wf_node (snd e)))"

subsection \<open>What the run meets outside the program\<close>

text \<open>
  The node that \<open>target_directory\<close> names, if any; the last component of its absolute
  path; whether the output file can be opened for writing; from the \<open>pathspec\<close> package,
  the compiler of a \<open>.gitignore\<close> text
  (\<open>PathSpec.from_lines("gitwildmatch", text.splitlines())\<close>, \<open>Inl\<close> when it raises);
  the texts that \<open>outf.write\<close> takes (it raises \<open>UnicodeEncodeError\<close> on a text that UTF-8
  cannot encode, such as a name that is not valid UTF-8, and \<open>OSError\<close> when the device
  fails); the lines that \<open>print\<close> takes (it raises when standard output cannot encode
  the line or is closed); the directories, by relative path, at which a call of
  \<open>generate_tree\<close> exceeds the interpreter's recursion limit; and those at which
  \<open>os.walk\<close> does (nowhere for the iterative \<open>os.walk\<close> of Python 3.12 and later).
\<close>

record world =
  target :: "node option"
  target_dir_name :: string
  output_writable :: bool
  compile_gitignore :: "string \<Rightarrow> string + pathspec"
  outf_accepts :: "string \<Rightarrow> bool"
  stdout_accepts :: "string \<Rightarrow> bool"
  tree_overflows :: "string \<Rightarrow> bool"
  walk_overflows :: "string \<Rightarrow> bool"

datatype failure =
    TargetNotDirectory
  | GitignoreFailed string
  | OutputNotWritable
  | WriteFailed string
  | PrintFailed string
  | RecursionError

text \<open>
  The state of a run: the chunks written to the output document, one per
  \<open>outf.write\<close>; the lines printed to standard output; and the exception that is leaving
  \<open>main\<close>, if any. Once an exception is raised no statement has an effect: nothing in
  \<open>main\<close> catches it.
\<close>

record run =
  outf :: "string list"
  stdout :: "string list"
  raised :: "failure option"

definition raise :: "failure \<Rightarrow> run \<Rightarrow> run" where
  "raise f st = (if raised st \<noteq> None then st else st\<lparr>raised := Some f\<rparr>)"

definition outf_write :: "world \<Rightarrow> string \<Rightarrow> run \<Rightarrow> run" where
  "outf_write w text st =
     (if raised st \<noteq> None then st
      else if outf_accepts w text then st\<lparr>outf := outf st @ [text]\<rparr>
      else st\<lparr>raised := Some (WriteFailed text)\<rparr>)"

definition print :: "world \<Rightarrow> string \<Rightarrow> run \<Rightarrow> run" where
  "print w line st =
     (if raised st \<noteq> None then st
      else if stdout_accepts w line then st\<lparr>stdout := stdout st @ [line]\<rparr>
      else st\<lparr>raised := Some (PrintFailed line)\<rparr>)"

subsection \<open>The tree renderer\<close>

text \<open>
  The ignore rules that \<open>generate_tree\<close> and the content loop of \<open>main\<close> capture from
  the enclosing scope.
\<close>

record rules =
  spec :: "pathspec option"
  extra_ignore_files :: "string set"
  extra_ignore_extensions :: "string set"

definition ignored :: "rules \<Rightarrow> string \<Rightarrow> bool" where
  "ignored rs rel_path =
     should_ignore rel_path (spec rs) (extra_ignore_files rs) (extra_ignore_extensions rs)"

text \<open>\<open>os.path.join(current_rel, entry) if current_rel else entry\<close>.\<close>

definition entry_rel :: "string \<Rightarrow> string \<Rightarrow> string" where
  "entry_rel current_rel entry = (if current_rel \<noteq> [] then path_join current_rel entry else entry)"

text \<open>The box-drawing characters U+2500, U+2502, U+2514 and U+251C in UTF-8.\<close>

definition box_h :: string where
  "box_h = [CHR 0xE2, CHR 0x94, CHR 0x80]"

definition box_v :: string where
  "box_v = [CHR 0xE2, CHR 0x94, CHR 0x82]"

definition box_up_right :: string where
  "box_up_right = [CHR 0xE2, CHR 0x94, CHR 0x94]"

definition box_v_right :: string where
  "box_v_right = [CHR 0xE2, CHR 0x94, CHR 0x9C]"

definition connector :: "bool \<Rightarrow> string" where
  "connector is_last =
     (if is_last then box_up_right @ box_h @ box_h @ '' '' else box_v_right @ box_h @ box_h @ '' '')"

definition extension :: "bool \<Rightarrow> string" where
  "extension is_last = (if is_last then ''    '' else box_v @ ''   '')"

text \<open>
  \<open>generate_tree(root, current_rel, prefix)\<close>, when no call exceeds the recursion limit.
  The node stands for the directory at \<open>os.path.join(root, current_rel)\<close>; each sorted name
  carries the node found under it. \<open>os.listdir\<close> raises on a directory that cannot be
  listed and on a file.
\<close>

function generate_tree :: "rules \<Rightarrow> node \<Rightarrow> string \<Rightarrow> string \<Rightarrow> string list" where
  "generate_tree rs (File regular fid r) current_rel pre = []"
| "generate_tree rs (Dir listable lnk content) current_rel pre =
    (if \<not> listable then []
     else
       let entries = sort_key fst content;
           filtered_entries =
             filter (\<lambda>(entry, nd). \<not> ignored rs (entry_rel current_rel entry)) entries;
           count = length filtered_entries
       in concat (map (\<lambda>(index, entry, nd).
             (pre @ connector (index = count - 1) @ entry)
             # (if is_dir nd
                then generate_tree rs nd (entry_rel current_rel entry)
                       (pre @ extension (index = count - 1))
                else []))
           (enumerate 0 filtered_entries)))"
  by pat_completeness auto
termination
  apply (relation "measure (\<lambda>(rs, nd, rel, pre). size nd)")
   apply simp
  apply (auto simp: in_set_enumerate_eq less_Suc_eq_le dest!: nth_mem)
  apply (erule size_list_estimation')
  apply simp
  done

text \<open>
  The relative paths on which \<open>generate_tree\<close> is called, the scan root first: it calls
  itself on every kept entry that is a directory. A call that exceeds the recursion
  limit raises \<open>RecursionError\<close>; the \<open>try\<close> of \<open>generate_tree\<close> covers \<open>os.listdir\<close> only, so
  the exception leaves every enclosing call.
\<close>

function generate_tree_calls :: "rules \<Rightarrow> node \<Rightarrow> string \<Rightarrow> string list" where
  "generate_tree_calls rs (File regular fid r) current_rel = [current_rel]"
| "generate_tree_calls rs (Dir listable lnk content) current_rel =
    current_rel
    # (if \<not> listable then []
       else concat (map (\<lambda>(entry, nd).
              if is_dir nd then generate_tree_calls rs nd (entry_rel current_rel entry) else [])
            (filter (\<lambda>(entry, nd). \<not> ignored rs (entry_rel current_rel entry))
               (sort_key fst content))))"
  by pat_completeness auto
termination
  apply (relation "measure (\<lambda>(rs, nd, rel). size nd)")
   apply simp
  apply (auto simp: less_Suc_eq_le)
  apply (erule size_list_estimation')
  apply simp
  done

subsection \<open>The content emitter\<close>

text \<open>
  \<open>os.walk(target_dir)\<close>, top-down and not following links, with the caller's pruning
  \<open>dirs[:] = [d for d in dirs if keep d]\<close> applied before the walk descends. It yields
  \<open>(root, dirs, files)\<close>, here \<open>Inr\<close>; \<open>root\<close> is kept relative to \<open>target_dir\<close> (empty for
  \<open>target_dir\<close> itself), so that \<open>os.path.relpath(os.path.join(root, file), target_dir)\<close>
  is \<open>path_join root file\<close>. A directory that cannot be scanned yields nothing. Where the
  walk exceeds the recursion limit it raises instead of yielding, here \<open>Inl\<close>, and what
  would follow is never asked for.
\<close>

function os_walk ::
  "(string \<Rightarrow> bool) \<Rightarrow> (string \<Rightarrow> bool) \<Rightarrow> string \<Rightarrow> node \<Rightarrow>
     (failure + string \<times> (string \<times> node) list \<times> (string \<times> node) list) list" where
  "os_walk keep overflows top_rel (File regular fid r) = []"
| "os_walk keep overflows top_rel (Dir listable lnk content) =
    (if overflows top_rel then [Inl RecursionError]
     else if \<not> listable then []
     else
       let dirs = filter (\<lambda>(name, nd). is_dir nd) content;
           nondirs = filter (\<lambda>(name, nd). \<not> is_dir nd) content;
           dirs' = filter (\<lambda>(d, nd). keep d) dirs
       in Inr (top_rel, dirs', nondirs)
          # concat (map (\<lambda>(dirname, nd).
                if is_link nd then []
                else os_walk keep overflows (path_join top_rel dirname) nd) dirs'))"
  by pat_completeness auto
termination
  apply (relation "measure (\<lambda>(keep, overflows, top_rel, nd). size nd)")
   apply simp
  apply (auto simp: less_Suc_eq_le)
  apply (erule size_list_estimation')
  apply simp
  done

definition nl :: string where
  "nl = [CHR 0x0A]"

definition fence :: string where
  "fence = [CHR 0x60, CHR 0x60, CHR 0x60]"

definition section_chunks :: "string \<Rightarrow> string \<Rightarrow> string list" where
  "section_chunks rel_path content =
     [''===== '' @ rel_path @ '' ====='' @ nl, fence @ nl, content, nl @ fence @ nl @ nl]"

definition skip_message :: "string \<Rightarrow> string \<Rightarrow> string" where
  "skip_message rel_path e = ''Skipping file '' @ rel_path @ '', reason: '' @ e"

text \<open>
  The body of \<open>for file in files\<close>. The \<open>print\<close> of the handler is not inside a \<open>try\<close> of
  its own, and neither are the four writes of a section.
\<close>

definition process_file :: "world \<Rightarrow> rules \<Rightarrow> string \<Rightarrow> string \<times> node \<Rightarrow> run \<Rightarrow> run" where
  "process_file w rs root = (\<lambda>(file, nd) st.
     let rel_path = path_join root file
     in if ignored rs rel_path then st
        else case read_text nd of
               Inl e \<Rightarrow> print w (skip_message rel_path e) st
             | Inr content \<Rightarrow> fold (outf_write w) (section_chunks rel_path content) st)"

text \<open>The loop \<open>for root, dirs, files in os.walk(target_dir)\<close>.\<close>

definition emit_contents :: "world \<Rightarrow> rules \<Rightarrow> node \<Rightarrow> run \<Rightarrow> run" where
  "emit_contents w rs target_dir st =
     fold (\<lambda>item st'.
         case item of
           Inl f \<Rightarrow> raise f st'
         | Inr (root, dirs, files) \<Rightarrow> fold (process_file w rs root) files st')
       (os_walk (\<lambda>d. d \<notin> extra_ignore_files rs) (walk_overflows w) [] target_dir) st"

subsection \<open>The document writer\<close>

record args =
  no_tree :: bool
  ignore_files :: "string list"
  ignore_extensions :: "string list"

text \<open>\<open>load_gitignore_spec\<close>: an exception of the read or of the compiler leaves \<open>main\<close>.\<close>

definition load_gitignore_spec :: "world \<Rightarrow> node \<Rightarrow> string + pathspec" where
  "load_gitignore_spec w gitignore =
     (case read_text gitignore of Inl e \<Rightarrow> Inl e | Inr text \<Rightarrow> compile_gitignore w text)"

definition name_set :: "args \<Rightarrow> (string \<times> node) list \<Rightarrow> string set" where
  "name_set a content =
     (if isdir_at content ''.git'' then insert ''.git'' (set (ignore_files a))
      else set (ignore_files a))"

definition load_spec :: "world \<Rightarrow> (string \<times> node) list \<Rightarrow> string + pathspec option" where
  "load_spec w content =
     (if isfile_at content ''.gitignore''
      then (case load_gitignore_spec w (the (map_of content ''.gitignore'')) of
              Inl e \<Rightarrow> Inl e | Inr s \<Rightarrow> Inr (Some s))
      else Inr None)"

definition description :: "string \<Rightarrow> string" where
  "description name =
     ''This markdown file consolidates the project directory structure and source code contents for analysis by a large language model.'' @ nl
     @ ''Target project directory: '' @ [CHR 0x27] @ name @ [CHR 0x27] @ ''.'' @ nl
     @ ''Each file'' @ [CHR 0x27] @ ''s content is enclosed in its own markdown code block for better clarity.'' @ nl"

text \<open>
  The tree part of \<open>main\<close>: two writes, the call of \<open>generate_tree\<close>, which raises when one
  of its calls exceeds the recursion limit, one write per line, and the closing write.
\<close>

definition write_tree :: "world \<Rightarrow> rules \<Rightarrow> node \<Rightarrow> run \<Rightarrow> run" where
  "write_tree w rs target_dir st =
     (let st1 = outf_write w (''#### Project Directory Tree'' @ nl @ nl) st;
          st2 = outf_write w (fence @ nl) st1
      in if \<exists>rel \<in> set (generate_tree_calls rs target_dir []). tree_overflows w rel
         then raise RecursionError st2
         else outf_write w (fence @ nl @ nl)
                (fold (\<lambda>line. outf_write w (line @ nl)) (generate_tree rs target_dir [] []) st2))"

text \<open>The rules in force once \<open>main\<close> has looked for \<open>.git\<close> and \<open>.gitignore\<close>.\<close>

definition run_rules :: "args \<Rightarrow> (string \<times> node) list \<Rightarrow> pathspec option \<Rightarrow> rules" where
  "run_rules a content sp =
     \<lparr>spec = sp, extra_ignore_files = name_set a content,
      extra_ignore_extensions = set (ignore_extensions a)\<rparr>"

text \<open>
  The \<open>with\<close> block of \<open>main\<close>: what it did when control leaves it, normally or by an
  exception. The output document then holds the chunks of \<open>outf\<close>.
\<close>

definition main_body :: "world \<Rightarrow> args \<Rightarrow> rules \<Rightarrow> node \<Rightarrow> run" where
  "main_body w a rs target_dir =
     (let st0 = outf_write w (description (target_dir_name w) @ nl @ nl)
                  \<lparr>outf = [], stdout = [], raised = None\<rparr>;
          st1 = (if \<not> no_tree a then write_tree w rs target_dir st0 else st0)
      in emit_contents w rs target_dir st1)"

text \<open>\<open>main\<close>: \<open>Inr\<close> when it returns, \<open>Inl\<close> when it exits or an exception leaves it.\<close>

definition main :: "world \<Rightarrow> args \<Rightarrow> failure + run" where
  "main w a =
     (case target w of
        None \<Rightarrow> Inl TargetNotDirectory
      | Some (File regular fid r) \<Rightarrow> Inl TargetNotDirectory
      | Some (Dir listable lnk content) \<Rightarrow>
          (case load_spec w content of
             Inl e \<Rightarrow> Inl (GitignoreFailed e)
           | Inr sp \<Rightarrow>
               if \<not> output_writable w then Inl OutputNotWritable
               else
                 let st = main_body w a (run_rules a content sp) (Dir listable lnk content)
                 in case raised st of None \<Rightarrow> Inr st | Some f \<Rightarrow> Inl f))"

subsection \<open>Notions used to state the properties\<close>

text \<open>
  The entries of a directory that \<open>generate_tree\<close> keeps, in the order it renders
  them (\<open>filtered_entries\<close>), and the lines one kept entry contributes: its own line,
  then the lines of its subtree when it is a directory.
\<close>

definition surviving :: "rules \<Rightarrow> string \<Rightarrow> (string \<times> node) list \<Rightarrow> (string \<times> node) list" where
  "surviving rs current_rel content =
     filter (\<lambda>(entry, nd). \<not> ignored rs (entry_rel current_rel entry)) (sort_key fst content)"

definition child_lines :: "rules \<Rightarrow> string \<Rightarrow> string \<Rightarrow> bool \<Rightarrow> string \<times> node \<Rightarrow> string list" where
  "child_lines rs current_rel pre is_last = (\<lambda>(entry, nd).
     (pre @ connector is_last @ entry)
     # (if is_dir nd
        then generate_tree rs nd (entry_rel current_rel entry) (pre @ extension is_last)
        else []))"

text \<open>
  The rows of the tree with their parts kept apart: prefix, whether the entry is the
  last of its level, entry name, and relative path. \<open>generate_tree\<close> is shown below to
  return exactly \<open>map row_line\<close> of them, so that a statement on the entries listed does
  not depend on parsing the lines back.
\<close>

function tree_rows ::
  "rules \<Rightarrow> node \<Rightarrow> string \<Rightarrow> string \<Rightarrow> (string \<times> bool \<times> string \<times> string) list" where
  "tree_rows rs (File regular fid r) current_rel pre = []"
| "tree_rows rs (Dir listable lnk content) current_rel pre =
    (if \<not> listable then []
     else
       let filtered_entries = surviving rs current_rel content;
           count = length filtered_entries
       in concat (map (\<lambda>(index, entry, nd).
             (pre, index = count - 1, entry, entry_rel current_rel entry)
             # (if is_dir nd
                then tree_rows rs nd (entry_rel current_rel entry)
                       (pre @ extension (index = count - 1))
                else []))
           (enumerate 0 filtered_entries)))"
  by pat_completeness auto
termination
  apply (relation "measure (\<lambda>(rs, nd, rel, pre). size nd)")
   apply simp
  apply (auto simp: surviving_def in_set_enumerate_eq less_Suc_eq_le dest!: nth_mem)
  apply (erule size_list_estimation')
  apply simp
  done

definition row_line :: "string \<times> bool \<times> string \<times> string \<Rightarrow> string" where
  "row_line = (\<lambda>(pre, is_last, entry, rel). pre @ connector is_last @ entry)"

definition row_rel :: "string \<times> bool \<times> string \<times> string \<Rightarrow> string" where
  "row_rel = (\<lambda>(pre, is_last, entry, rel). rel)"

text \<open>
  The components of a relative path (\<open>p.split("/")\<close>, and no component for the empty
  path), paths that do not end with a separator, and the node a relative path names
  under a directory.
\<close>

fun split_path :: "string \<Rightarrow> string list" where
  "split_path [] = [[]]"
| "split_path (c # cs) =
     (if c = sep then [] # split_path cs
      else (case split_path cs of [] \<Rightarrow> [[c]] | w # ws \<Rightarrow> (c # w) # ws))"

definition parts :: "string \<Rightarrow> string list" where
  "parts p = (if p = [] then [] else split_path p)"

definition clean :: "string \<Rightarrow> bool" where
  "clean p = (p = [] \<or> last p \<noteq> sep)"

fun lookup_parts :: "node \<Rightarrow> string list \<Rightarrow> node option" where
  "lookup_parts nd [] = Some nd"
| "lookup_parts (File regular fid r) (c # cs) = None"
| "lookup_parts (Dir listable lnk content) (c # cs) =
     (case map_of content c of None \<Rightarrow> None | Some ch \<Rightarrow> lookup_parts ch cs)"

definition resolve :: "node \<Rightarrow> string \<Rightarrow> node option" where
  "resolve root_node p = lookup_parts root_node (parts p)"

text \<open>
  The files the content loop meets when the walk runs to its end, in order, with their
  relative paths; those it does not ignore; and among these the sections (path and
  text) and the files skipped (path and reason).
\<close>

definition walk_files :: "(string \<Rightarrow> bool) \<Rightarrow> string \<Rightarrow> node \<Rightarrow> (string \<times> node) list" where
  "walk_files keep top_rel nd =
     concat (map (\<lambda>item.
         case item of
           Inl f \<Rightarrow> []
         | Inr (root, dirs, files) \<Rightarrow> map (\<lambda>(file, x). (path_join root file, x)) files)
       (os_walk keep (\<lambda>rel. False) top_rel nd))"

definition visited :: "rules \<Rightarrow> node \<Rightarrow> (string \<times> node) list" where
  "visited rs target_dir =
     filter (\<lambda>(p, x). \<not> ignored rs p)
       (walk_files (\<lambda>d. d \<notin> extra_ignore_files rs) [] target_dir)"

definition sections_of :: "(string \<times> node) list \<Rightarrow> (string \<times> string) list" where
  "sections_of vs = concat (map (\<lambda>(p, x). case read_text x of Inl e \<Rightarrow> [] | Inr c \<Rightarrow> [(p, c)]) vs)"

definition skipped_of :: "(string \<times> node) list \<Rightarrow> (string \<times> string) list" where
  "skipped_of vs = concat (map (\<lambda>(p, x). case read_text x of Inl e \<Rightarrow> [(p, e)] | Inr c \<Rightarrow> []) vs)"

text \<open>
  The text of the document, written out: the four chunks of each section, the line
  printed for each skipped file, the tree region, and what precedes the sections (the
  description, then the tree region unless \<open>--no-tree\<close> is given).
\<close>

definition render_sections :: "(string \<times> string) list \<Rightarrow> string list" where
  "render_sections ss =
     concat (map (\<lambda>(p, c).
       [''===== '' @ p @ '' ====='' @ [CHR 0x0A],
        [CHR 0x60, CHR 0x60, CHR 0x60, CHR 0x0A],
        c,
        [CHR 0x0A, CHR 0x60, CHR 0x60, CHR 0x60, CHR 0x0A, CHR 0x0A]]) ss)"

definition render_skipped :: "(string \<times> string) list \<Rightarrow> string list" where
  "render_skipped ss = map (\<lambda>(p, e). ''Skipping file '' @ p @ '', reason: '' @ e) ss"

definition tree_region :: "rules \<Rightarrow> node \<Rightarrow> string list" where
  "tree_region rs target_dir =
     [''#### Project Directory Tree'' @ [CHR 0x0A, CHR 0x0A],
      [CHR 0x60, CHR 0x60, CHR 0x60, CHR 0x0A]]
     @ map (\<lambda>line. line @ [CHR 0x0A]) (generate_tree rs target_dir [] [])
     @ [[CHR 0x60, CHR 0x60, CHR 0x60, CHR 0x0A, CHR 0x0A]]"

definition preamble :: "world \<Rightarrow> args \<Rightarrow> rules \<Rightarrow> node \<Rightarrow> string list" where
  "preamble w a rs target_dir =
     (description (target_dir_name w) @ [CHR 0x0A, CHR 0x0A])
     # (if no_tree a then [] else tree_region rs target_dir)"

text \<open>
  The statements of a run that can raise, in program order: a write, a print, or a
  raise. \<open>perform\<close> is what each does to the run; \<open>run_events\<close> are those of \<open>main_body\<close>
  and \<open>full_events\<close> those of a run in which nothing raises.
\<close>

datatype event = Write string | Print string | Raise failure

fun perform :: "world \<Rightarrow> event \<Rightarrow> run \<Rightarrow> run" where
  "perform w (Write text) = outf_write w text"
| "perform w (Print line) = print w line"
| "perform w (Raise f) = raise f"

fun is_raise :: "event \<Rightarrow> bool" where
  "is_raise (Raise f) = True"
| "is_raise e = False"

fun accepted :: "world \<Rightarrow> event \<Rightarrow> bool" where
  "accepted w (Write text) = outf_accepts w text"
| "accepted w (Print line) = stdout_accepts w line"
| "accepted w (Raise f) = False"

definition writes :: "event list \<Rightarrow> string list" where
  "writes evs = concat (map (\<lambda>e. case e of Write text \<Rightarrow> [text] | _ \<Rightarrow> []) evs)"

definition prints :: "event list \<Rightarrow> string list" where
  "prints evs = concat (map (\<lambda>e. case e of Print line \<Rightarrow> [line] | _ \<Rightarrow> []) evs)"

definition no_raise :: "event list \<Rightarrow> bool" where
  "no_raise evs = list_all (\<lambda>e. \<not> is_raise e) evs"

definition until_raise :: "event list \<Rightarrow> event list" where
  "until_raise evs = takeWhile (\<lambda>e. \<not> is_raise e) evs"

definition truncates :: "event list \<Rightarrow> event list \<Rightarrow> bool" where
  "truncates actual full =
     (prefix (until_raise actual) full \<and> (no_raise actual \<longrightarrow> actual = full))"

definition visit_events :: "string \<times> node \<Rightarrow> event list" where
  "visit_events = (\<lambda>(p, x).
     case read_text x of
       Inl e \<Rightarrow> [Print (skip_message p e)]
     | Inr c \<Rightarrow> map Write (section_chunks p c))"

definition item_events ::
  "rules \<Rightarrow> failure + string \<times> (string \<times> node) list \<times> (string \<times> node) list \<Rightarrow> event list" where
  "item_events rs item =
     (case item of
        Inl f \<Rightarrow> [Raise f]
      | Inr (root, dirs, files) \<Rightarrow>
          concat (map visit_events
            (filter (\<lambda>(p, x). \<not> ignored rs p)
               (map (\<lambda>(file, x). (path_join root file, x)) files))))"

definition tree_events :: "world \<Rightarrow> rules \<Rightarrow> node \<Rightarrow> event list" where
  "tree_events w rs target_dir =
     [Write (''#### Project Directory Tree'' @ nl @ nl), Write (fence @ nl)]
     @ (if \<exists>rel \<in> set (generate_tree_calls rs target_dir []). tree_overflows w rel
        then [Raise RecursionError]
        else map (\<lambda>line. Write (line @ nl)) (generate_tree rs target_dir [] [])
             @ [Write (fence @ nl @ nl)])"

definition run_events :: "world \<Rightarrow> args \<Rightarrow> rules \<Rightarrow> node \<Rightarrow> event list" where
  "run_events w a rs target_dir =
     Write (description (target_dir_name w) @ nl @ nl)
     # (if no_tree a then [] else tree_events w rs target_dir)
     @ concat (map (item_events rs)
         (os_walk (\<lambda>d. d \<notin> extra_ignore_files rs) (walk_overflows w) [] target_dir))"

definition full_events :: "world \<Rightarrow> args \<Rightarrow> rules \<Rightarrow> node \<Rightarrow> event list" where
  "full_events w a rs target_dir =
     map Write (preamble w a rs target_dir)
     @ concat (map visit_events (visited rs target_dir))"

subsection \<open>Example inputs\<close>

text \<open>
  A project with a \<open>.git\<close> directory, a log file, a file that is not valid UTF-8, a
  directory \<open>conf.d\<close> holding a \<open>.git\<close> file, and a directory that cannot be listed; it
  is scanned with \<open>--ignore-extensions .log\<close>, every write and print is taken and the
  recursion limit is not reached. The second project has one directory whose name ends
  with an ignored suffix; it is scanned with \<open>--no-tree --ignore-extensions .d\<close>.
\<close>

definition demo_content :: "(string \<times> node) list" where
  "demo_content =
     [(''b.log'', File True 1 (Inr ''log line'')),
      (''conf.d'', Dir True False
         [(''.git'', File True 2 (Inr ''gitdir: ../.git'')), (''x.txt'', File True 3 (Inr ''hi''))]),
      (''.git'', Dir True False [(''HEAD'', File True 4 (Inr ''ref''))]),
      (''a.txt'', File True 5 (Inr ''hello'')),
      (''bad.bin'', File True 6 (Inl ''invalid start byte'')),
      (''sub'', Dir False False [(''y'', File True 7 (Inr ''y''))])]"

definition demo_world :: world where
  "demo_world =
     \<lparr>target = Some (Dir True False demo_content), target_dir_name = ''proj'',
      output_writable = True, compile_gitignore = (\<lambda>text. Inr []),
      outf_accepts = (\<lambda>text. True), stdout_accepts = (\<lambda>line. True),
      tree_overflows = (\<lambda>rel. False), walk_overflows = (\<lambda>rel. False)\<rparr>"

definition demo_args :: args where
  "demo_args = \<lparr>no_tree = False, ignore_files = [], ignore_extensions = [''.log'']\<rparr>"

definition demo_rules :: rules where
  "demo_rules = run_rules demo_args demo_content None"

definition cx_content :: "(string \<times> node) list" where
  "cx_content = [(''conf.d'', Dir True False [(''x.txt'', File True 1 (Inr ''hi''))])]"

definition cx_world :: world where
  "cx_world =
     \<lparr>target = Some (Dir True False cx_content), target_dir_name = ''proj'',
      output_writable = True, compile_gitignore = (\<lambda>text. Inr []),
      outf_accepts = (\<lambda>text. True), stdout_accepts = (\<lambda>line. True),
      tree_overflows = (\<lambda>rel. False), walk_overflows = (\<lambda>rel. False)\<rparr>"

definition cx_args :: args where
  "cx_args = \<lparr>no_tree = True, ignore_files = [], ignore_extensions = [''.d'']\<rparr>"

text \<open>
  The third project holds a file that cannot be read, under a name that is not valid
  UTF-8 (the single byte \<open>0xFF\<close>, then \<open>.bin\<close>), listed before a readable file \<open>z.txt\<close>;
  it is scanned with \<open>--no-tree\<close>. The output document and standard output encode in
  UTF-8, which refuses a text holding that byte. \<open>bad_world_lenient\<close> is the same run
  with a standard output that takes every line.
\<close>

definition bad_name :: string where
  "bad_name = CHR 0xFF # ''.bin''"

definition bad_content :: "(string \<times> node) list" where
  "bad_content =
     [(bad_name, File True 1 (Inl ''Permission denied'')),
      (''z.txt'', File True 2 (Inr ''ok''))]"

definition bad_world :: world where
  "bad_world =
     \<lparr>target = Some (Dir True False bad_content), target_dir_name = ''proj'',
      output_writable = True, compile_gitignore = (\<lambda>text. Inr []),
      outf_accepts = (\<lambda>text. CHR 0xFF \<notin> set text),
      stdout_accepts = (\<lambda>line. CHR 0xFF \<notin> set line),
      tree_overflows = (\<lambda>rel. False), walk_overflows = (\<lambda>rel. False)\<rparr>"

definition bad_world_lenient :: world where
  "bad_world_lenient = bad_world\<lparr>stdout_accepts := (\<lambda>line. True)\<rparr>"

definition bad_args :: args where
  "bad_args = \<lparr>no_tree = True, ignore_files = [], ignore_extensions = []\<rparr>"

text \<open>
  The fourth project holds one file under two names, \<open>a.txt\<close> and \<open>b.txt\<close> (a hard link,
  or a symbolic link beside its target); it is scanned with \<open>--no-tree\<close>.
\<close>

definition lk_content :: "(string \<times> node) list" where
  "lk_content =
     [(''a.txt'', File True 1 (Inr ''hello'')),
      (''b.txt'', File True 1 (Inr ''hello''))]"

definition lk_world :: world where
  "lk_world =
     \<lparr>target = Some (Dir True False lk_content), target_dir_name = ''proj'',
      output_writable = True, compile_gitignore = (\<lambda>text. Inr []),
      outf_accepts = (\<lambda>text. True), stdout_accepts = (\<lambda>line. True),
      tree_overflows = (\<lambda>rel. False), walk_overflows = (\<lambda>rel. False)\<rparr>"

definition lk_args :: args where
  "lk_args = \<lparr>no_tree = True, ignore_files = [], ignore_extensions = []\<rparr>"

section \<open>Auxiliary lemmas\<close>

lemma match_file_Nil: "match_file [] file = False"
  by (simp add: match_file_def)

lemma should_ignore_eq:
  "should_ignore p m N E =
     (basename p \<in> N \<or> (\<exists>ext \<in> E. endswith p ext) \<or> (\<exists>s. m = Some s \<and> match_file s p))"
proof (cases m)
  case None
  then show ?thesis by (simp add: should_ignore_def truthy_def)
next
  case (Some s)
  then show ?thesis
    by (cases "s = []") (auto simp: should_ignore_def truthy_def match_file_Nil)
qed

lemma first_hit_iff: "first_hit cs p m N E = (\<exists>c \<in> set cs. run_check c p m N E)"
  by (induction cs) auto

lemma endswith_rev: "endswith s suf = prefix (rev suf) (rev s)"
  by (simp add: endswith_def suffix_to_prefix)

lemma endswith_append: "endswith (q @ s) s"
  by (simp add: endswith_def suffix_def)

lemma endswith_path_join: "endswith p e \<Longrightarrow> endswith (path_join d p) e"
  by (auto simp: endswith_def path_join_def suffix_def)

lemma node_induct [case_names File Dir]:
  assumes "\<And>regular fid r. P (File regular fid r)"
    and "\<And>listable lnk content. (\<And>n c. (n, c) \<in> set content \<Longrightarrow> P c) \<Longrightarrow> P (Dir listable lnk content)"
  shows "P nd"
  using assms
  by (induction nd) (auto simp: snds.simps)

lemma surviving_subset: "e \<in> set (surviving rs rel content) \<Longrightarrow> e \<in> set content"
  by (auto simp: surviving_def)

lemma enumerate_map_nth:
  "map f (enumerate 0 xs) = map (\<lambda>i. f (i, xs ! i)) [0..<length xs]"
  by (rule nth_equalityI) (simp_all add: nth_enumerate_eq)

lemma generate_tree_enum:
  "generate_tree rs (Dir True lnk content) current_rel pre =
     concat (map (\<lambda>(index, entry, nd).
         child_lines rs current_rel pre (index = length (surviving rs current_rel content) - 1)
           (entry, nd))
       (enumerate 0 (surviving rs current_rel content)))"
  by (simp add: surviving_def child_lines_def Let_def cong del: if_weak_cong)

lemma generate_tree_Dir:
  "generate_tree rs (Dir True lnk content) current_rel pre =
     (let kept = surviving rs current_rel content; count = length kept
      in concat (map (\<lambda>i. child_lines rs current_rel pre (i = count - 1) (kept ! i)) [0..<count]))"
  unfolding generate_tree_enum Let_def enumerate_map_nth by (simp add: case_prod_beta)

lemma tree_rows_enum:
  "tree_rows rs (Dir True lnk content) current_rel pre =
     concat (map (\<lambda>(index, entry, nd).
         (pre, index = length (surviving rs current_rel content) - 1, entry, entry_rel current_rel entry)
         # (if is_dir nd
            then tree_rows rs nd (entry_rel current_rel entry)
                   (pre @ extension (index = length (surviving rs current_rel content) - 1))
            else []))
       (enumerate 0 (surviving rs current_rel content)))"
  by (simp add: Let_def)

lemma generate_tree_rows:
  "generate_tree rs nd current_rel pre = map row_line (tree_rows rs nd current_rel pre)"
proof (induction nd arbitrary: current_rel pre rule: node_induct)
  case (File regular fid r)
  show ?case by simp
next
  case (Dir listable lnk content)
  show ?case
  proof (cases listable)
    case False
    then show ?thesis by simp
  next
    case True
    let ?kept = "surviving rs current_rel content"
    have kids: "child_lines rs current_rel pre (fst x = length ?kept - 1) (snd x)
      = map row_line ((\<lambda>(index, entry, nd).
             (pre, index = length ?kept - 1, entry, entry_rel current_rel entry)
             # (if is_dir nd
                then tree_rows rs nd (entry_rel current_rel entry)
                       (pre @ extension (index = length ?kept - 1))
                else [])) x)"
      if "x \<in> set (enumerate 0 ?kept)" for x
    proof -
      obtain i e c where x: "x = (i, e, c)" by (cases x) auto
      with that have "(e, c) \<in> set content"
        by (auto simp: in_set_enumerate_eq dest!: nth_mem surviving_subset)
      then show ?thesis
        using Dir.IH [of e c] by (simp add: x row_line_def child_lines_def)
    qed
    from True have D: "Dir listable lnk content = Dir True lnk content"
      by simp
    show ?thesis
      unfolding D generate_tree_enum tree_rows_enum
      apply (simp add: map_concat case_prod_beta)
      apply (rule arg_cong [where f = concat])
      apply (rule map_cong [OF refl])
      apply (drule kids)
      apply (simp add: case_prod_beta)
      done
  qed
qed

lemma split_path_not_Nil: "split_path p \<noteq> []"
  by (induction p) (auto split: list.splits)

lemma split_path_no_sep: "sep \<notin> set n \<Longrightarrow> split_path n = [n]"
  by (induction n) auto

lemma split_path_append_sep: "split_path (a @ sep # b) = split_path a @ split_path b"
  by (induction a) (auto split: list.splits simp: split_path_not_Nil)

lemma path_join_Nil: "path_join [] b = b"
  by (simp add: path_join_def)

lemma entry_rel_eq: "entry_rel a b = path_join a b"
  by (simp add: entry_rel_def path_join_Nil)

lemma valid_name_no_prefix: "valid_name b \<Longrightarrow> \<not> prefix [sep] b"
  by (cases b) (auto simp: valid_name_def)

lemma clean_no_suffix: "clean a \<Longrightarrow> a \<noteq> [] \<Longrightarrow> \<not> suffix [sep] a"
  by (auto simp: clean_def suffix_def)

lemma path_join_valid:
  "valid_name b \<Longrightarrow> clean a \<Longrightarrow> path_join a b = (if a = [] then b else a @ sep # b)"
  by (auto simp: path_join_def dest: valid_name_no_prefix clean_no_suffix)

lemma clean_valid: "valid_name b \<Longrightarrow> clean b"
  unfolding valid_name_def clean_def using last_in_set [of b] by metis

lemma clean_path_join: "valid_name b \<Longrightarrow> clean a \<Longrightarrow> clean (path_join a b)"
  using clean_valid [of b] by (auto simp: path_join_valid) (auto simp: valid_name_def clean_def)

lemma parts_path_join: "valid_name b \<Longrightarrow> clean a \<Longrightarrow> parts (path_join a b) = parts a @ [b]"
  by (auto simp: path_join_valid parts_def split_path_append_sep split_path_no_sep valid_name_def)

lemma basename_path_join: "valid_name b \<Longrightarrow> clean a \<Longrightarrow> basename (path_join a b) = b"
proof -
  assume b: "valid_name b" and a: "clean a"
  have all: "\<forall>c \<in> set (rev b). c \<noteq> sep"
    using b by (auto simp: valid_name_def)
  have tw1: "takeWhile (\<lambda>c. c \<noteq> sep) (rev b @ sep # rest) = rev b" for rest
    using all takeWhile_append2 [of "rev b" "\<lambda>c. c \<noteq> sep" "sep # rest"] by simp
  have tw2: "takeWhile (\<lambda>c. c \<noteq> sep) (rev b) = rev b"
    using all by (simp add: takeWhile_eq_all_conv)
  show ?thesis
    using a b by (simp add: path_join_valid basename_def tw1 tw2)
qed

lemma walk_files_File: "walk_files keep top_rel (File regular fid r) = []"
  by (simp add: walk_files_def)

lemma walk_files_unlistable: "walk_files keep top_rel (Dir False lnk content) = []"
  by (simp add: walk_files_def)

lemma walk_files_Dir:
  "walk_files keep top_rel (Dir True lnk content) =
     map (\<lambda>(fname, x). (path_join top_rel fname, x)) (filter (\<lambda>(name, nd). \<not> is_dir nd) content)
     @ concat (map (\<lambda>(dirname, nd).
           if is_link nd then [] else walk_files keep (path_join top_rel dirname) nd)
         (filter (\<lambda>(d, nd). keep d) (filter (\<lambda>(name, nd). is_dir nd) content)))"
proof -
  have cc: "concat (map F (concat (map G ds))) = concat (map (\<lambda>d. concat (map F (G d))) ds)"
    for F :: "'a \<Rightarrow> 'b list" and G :: "'c \<Rightarrow> 'a list" and ds
    by (induction ds) simp_all
  have ite: "concat (map F (if c then [] else xs)) = (if c then [] else concat (map F xs))"
    for F :: "'a \<Rightarrow> 'b list" and c xs
    by simp
  show ?thesis
    apply (simp add: walk_files_def Let_def split_def cc ite cong del: if_weak_cong)
    apply (simp add: split_def cong del: if_weak_cong)
    done
qed

lemma walk_files_facts:
  "wf_node nd \<Longrightarrow> clean top_rel \<Longrightarrow> (p, x) \<in> set (walk_files keep top_rel nd) \<Longrightarrow>
     \<exists>cs. cs \<noteq> [] \<and> parts p = parts top_rel @ cs \<and> lookup_parts nd cs = Some x
        \<and> \<not> is_dir x \<and> (\<forall>c \<in> set (butlast cs). keep c) \<and> basename p = last cs"
proof (induction nd arbitrary: top_rel p x rule: node_induct)
  case (File regular fid r)
  then show ?case by (simp add: walk_files_File)
next
  case (Dir listable lnk content)
  show ?case
  proof (cases listable)
    case False
    with Dir.prems show ?thesis by (simp add: walk_files_unlistable)
  next
    case True
    from Dir.prems(1) have dist: "distinct (map fst content)"
      and valid: "\<And>n c. (n, c) \<in> set content \<Longrightarrow> valid_name n"
      and wf: "\<And>n c. (n, c) \<in> set content \<Longrightarrow> wf_node c"
      by auto
    from Dir.prems(3) True consider
      (leaf) fname where "(fname, x) \<in> set content" "\<not> is_dir x" "p = path_join top_rel fname"
      | (sub) d nd where "(d, nd) \<in> set content" "is_dir nd" "keep d" "\<not> is_link nd"
          "(p, x) \<in> set (walk_files keep (path_join top_rel d) nd)"
      by (auto simp: walk_files_Dir split: if_splits)
    then show ?thesis
    proof cases
      case leaf
      from leaf(1) have v: "valid_name fname" by (rule valid)
      from dist leaf(1) have "map_of content fname = Some x" by simp
      then have "lookup_parts (Dir listable lnk content) [fname] = Some x" by simp
      moreover have "parts p = parts top_rel @ [fname]"
        using v Dir.prems(2) leaf(3) by (simp add: parts_path_join)
      moreover have "basename p = fname"
        using v Dir.prems(2) leaf(3) by (simp add: basename_path_join)
      ultimately show ?thesis
        using leaf(2) by (intro exI [of _ "[fname]"]) simp
    next
      case sub
      from sub(1) have v: "valid_name d" by (rule valid)
      have cl: "clean (path_join top_rel d)"
        using v Dir.prems(2) by (rule clean_path_join)
      from Dir.IH [OF sub(1) wf [OF sub(1)] cl sub(5)]
      obtain cs where cs: "cs \<noteq> []" "parts p = parts (path_join top_rel d) @ cs"
        "lookup_parts nd cs = Some x" "\<not> is_dir x" "\<forall>c \<in> set (butlast cs). keep c"
        "basename p = last cs"
        by blast
      from dist sub(1) have "map_of content d = Some nd" by simp
      then have "lookup_parts (Dir listable lnk content) (d # cs) = Some x"
        using cs(3) by simp
      moreover have "parts p = parts top_rel @ d # cs"
        using cs(2) v Dir.prems(2) by (simp add: parts_path_join)
      ultimately show ?thesis
        using cs(1,4,5,6) sub(3) by (intro exI [of _ "d # cs"]) simp
    qed
  qed
qed

lemma distinct_concat_tagged:
  assumes "distinct (map k xs)"
    and "\<And>x. x \<in> set xs \<Longrightarrow> distinct (f x)"
    and "\<And>x y. x \<in> set xs \<Longrightarrow> y \<in> set (f x) \<Longrightarrow> tag y = k x"
  shows "distinct (concat (map f xs))"
  using assms
proof (induction xs)
  case Nil
  show ?case by simp
next
  case (Cons x xs)
  have "set (f x) \<inter> set (concat (map f xs)) = {}"
  proof (rule ccontr)
    assume "set (f x) \<inter> set (concat (map f xs)) \<noteq> {}"
    then obtain y x' where "y \<in> set (f x)" "x' \<in> set xs" "y \<in> set (f x')"
      by auto
    then have "k x = k x'"
      using Cons.prems(3) [of x y] Cons.prems(3) [of x' y] by simp
    with \<open>x' \<in> set xs\<close> Cons.prems(1) show False
      by force
  qed
  moreover have "distinct (concat (map f xs))"
    using Cons.prems by (intro Cons.IH) auto
  ultimately show ?case
    using Cons.prems(2) [of x] by simp
qed

lemma walk_files_distinct:
  "wf_node nd \<Longrightarrow> clean top_rel \<Longrightarrow> distinct (map fst (walk_files keep top_rel nd))"
proof (induction nd arbitrary: top_rel rule: node_induct)
  case (File regular fid r)
  show ?case by (simp add: walk_files_File)
next
  case (Dir listable lnk content)
  show ?case
  proof (cases listable)
    case False
    then show ?thesis by (simp add: walk_files_unlistable)
  next
    case True
    let ?Fs = "filter (\<lambda>(name, nd). \<not> is_dir nd) content"
    let ?Ds = "filter (\<lambda>(d, nd). keep d) (filter (\<lambda>(name, nd). is_dir nd) content)"
    let ?sub = "\<lambda>e. map fst (if is_link (snd e) then []
      else walk_files keep (path_join top_rel (fst e)) (snd e))"
    let ?A = "map (path_join top_rel) (map fst ?Fs)"
    let ?B = "concat (map ?sub ?Ds)"
    from Dir.prems(1) have dist: "distinct (map fst content)"
      and valid: "\<And>e. e \<in> set content \<Longrightarrow> valid_name (fst e)"
      and wf: "\<And>e. e \<in> set content \<Longrightarrow> wf_node (snd e)"
      by auto
    have eq: "map fst (walk_files keep top_rel (Dir listable lnk content)) = ?A @ ?B"
      using True by (simp add: walk_files_Dir map_concat split_def comp_def)
    have inA: "length (parts p) = Suc (length (parts top_rel))" if "p \<in> set ?A" for p
      using that valid Dir.prems(2) by (auto simp: parts_path_join)
    have inB: "\<exists>cs. cs \<noteq> [] \<and> parts p = parts top_rel @ fst e # cs"
      if "e \<in> set ?Ds" "p \<in> set (?sub e)" for e p
    proof -
      from that obtain x where px: "(p, x) \<in> set (walk_files keep (path_join top_rel (fst e)) (snd e))"
        and e: "e \<in> set content"
        by (auto split: if_splits)
      have "clean (path_join top_rel (fst e))"
        using valid [OF e] Dir.prems(2) by (rule clean_path_join)
      from walk_files_facts [OF wf [OF e] this px]
      obtain cs where "cs \<noteq> []" "parts p = parts (path_join top_rel (fst e)) @ cs"
        by blast
      then show ?thesis
        using valid [OF e] Dir.prems(2) by (auto simp: parts_path_join)
    qed
    have dA: "distinct ?A"
    proof -
      have "inj_on (path_join top_rel) (set (map fst ?Fs))"
        by (rule inj_on_inverseI [where g = basename])
          (use valid Dir.prems(2) in \<open>auto simp: basename_path_join\<close>)
      moreover have "distinct (map fst ?Fs)"
        using dist by (rule distinct_map_filter)
      ultimately show ?thesis
        using distinct_map [of "path_join top_rel" "map fst ?Fs"] by blast
    qed
    have dB: "distinct ?B"
    proof (rule distinct_concat_tagged [where k = fst
          and tag = "\<lambda>p. parts p ! length (parts top_rel)"])
      show "distinct (map fst ?Ds)"
        using dist by (intro distinct_map_filter)
    next
      fix e assume "e \<in> set ?Ds"
      then have e: "e \<in> set content" by auto
      have "clean (path_join top_rel (fst e))"
        using valid [OF e] Dir.prems(2) by (rule clean_path_join)
      then show "distinct (?sub e)"
        using Dir.IH [of "fst e" "snd e"] e wf [OF e] by simp
    next
      fix e p assume "e \<in> set ?Ds" "p \<in> set (?sub e)"
      from inB [OF this] show "parts p ! length (parts top_rel) = fst e"
        by auto
    qed
    have "set ?A \<inter> set ?B = {}"
    proof (rule ccontr)
      assume "set ?A \<inter> set ?B \<noteq> {}"
      then obtain p e where p: "p \<in> set ?A" "e \<in> set ?Ds" "p \<in> set (?sub e)"
        by auto
      from inA [OF p(1)] inB [OF p(2,3)] show False
        by auto
    qed
    with dA dB show ?thesis
      unfolding eq by simp
  qed
qed

lemma ignored_iff:
  "ignored rs p =
     (basename p \<in> extra_ignore_files rs \<or> (\<exists>ext \<in> extra_ignore_extensions rs. endswith p ext)
      \<or> (\<exists>s. spec rs = Some s \<and> match_file s p))"
  by (simp add: ignored_def should_ignore_eq)

lemma surviving_iff:
  "e \<in> set (surviving rs rel content) \<longleftrightarrow> e \<in> set content \<and> \<not> ignored rs (entry_rel rel (fst e))"
  by (auto simp: surviving_def)


lemma in_enumerate_D: "(i, x) \<in> set (enumerate n xs) \<Longrightarrow> x \<in> set xs"
  by (induction xs arbitrary: n) auto

lemma tree_rows_parts:
  "wf_node nd \<Longrightarrow> clean rel \<Longrightarrow> set (parts rel) \<inter> extra_ignore_files rs = {} \<Longrightarrow>
   row \<in> set (tree_rows rs nd rel pre) \<Longrightarrow>
     set (parts (row_rel row)) \<inter> extra_ignore_files rs = {}"
proof (induction nd arbitrary: rel pre row rule: node_induct)
  case (File regular fid r)
  then show ?case by simp
next
  case (Dir listable lnk content)
  show ?case
  proof (cases listable)
    case False
    with Dir.prems show ?thesis by simp
  next
    case True
    let ?kept = "surviving rs rel content"
    from Dir.prems(4) True
    have "row \<in> set (tree_rows rs (Dir True lnk content) rel pre)"
      by (simp del: tree_rows.simps)
    then obtain t where t: "t \<in> set (enumerate 0 ?kept)"
      and rt: "row \<in> set ((\<lambda>(index, entry, nd).
         (pre, index = length ?kept - 1, entry, entry_rel rel entry)
         # (if is_dir nd
            then tree_rows rs nd (entry_rel rel entry) (pre @ extension (index = length ?kept - 1))
            else [])) t)"
      unfolding tree_rows_enum by auto
    obtain i e c where tiec: "t = (i, e, c)"
      by (cases t) auto
    from t tiec have iec: "(i, e, c) \<in> set (enumerate 0 ?kept)"
      by simp
    from rt tiec have row: "row = (pre, i = length ?kept - 1, e, entry_rel rel e)
         \<or> (is_dir c \<and> row \<in> set (tree_rows rs c (entry_rel rel e)
               (pre @ extension (i = length ?kept - 1))))"
      by (cases "is_dir c") simp_all
    from iec have "(e, c) \<in> set ?kept"
      by (rule in_enumerate_D)
    then have ec: "(e, c) \<in> set content" and ni: "\<not> ignored rs (entry_rel rel e)"
      by (auto simp: surviving_iff)
    from ec Dir.prems(1) have v: "valid_name e" and wfc: "wf_node c"
      by auto
    have b: "basename (entry_rel rel e) = e"
      using v Dir.prems(2) by (simp add: entry_rel_eq basename_path_join)
    with ni have "e \<notin> extra_ignore_files rs"
      by (auto simp: ignored_iff)
    moreover have p: "parts (entry_rel rel e) = parts rel @ [e]"
      using v Dir.prems(2) by (simp add: entry_rel_eq parts_path_join)
    ultimately have here: "set (parts (entry_rel rel e)) \<inter> extra_ignore_files rs = {}"
      using Dir.prems(3) by auto
    have cl: "clean (entry_rel rel e)"
      using v Dir.prems(2) by (simp add: entry_rel_eq clean_path_join)
    from row show ?thesis
    proof
      assume "row = (pre, i = length ?kept - 1, e, entry_rel rel e)"
      with here show ?thesis by (simp add: row_rel_def)
    next
      assume "is_dir c \<and> row \<in> set (tree_rows rs c (entry_rel rel e)
               (pre @ extension (i = length ?kept - 1)))"
      then show ?thesis
        using Dir.IH [OF ec wfc cl here] by blast
    qed
  qed
qed

lemma sections_of_iff:
  "(p, c) \<in> set (sections_of vs) \<longleftrightarrow> (\<exists>x. (p, x) \<in> set vs \<and> read_text x = Inr c)"
  by (induction vs) (auto simp: sections_of_def split: sum.splits)

lemma sections_of_distinct: "distinct (map fst vs) \<Longrightarrow> distinct (map fst (sections_of vs))"
proof (induction vs)
  case Nil
  show ?case by (simp add: sections_of_def)
next
  case (Cons v vs)
  obtain p x where v: "v = (p, x)" by (cases v)
  have tl: "sections_of (v # vs) = (case read_text x of Inl e \<Rightarrow> [] | Inr c \<Rightarrow> [(p, c)]) @ sections_of vs"
    by (simp add: sections_of_def v)
  have "p \<notin> fst ` set (sections_of vs)"
    using Cons.prems by (force simp: v sections_of_iff)
  then show ?case
    using Cons by (cases "read_text x") (simp_all add: tl)
qed

lemma visited_parts:
  assumes "wf_node nd" and "(p, x) \<in> set (visited rs nd)"
  shows "set (parts p) \<inter> extra_ignore_files rs = {}"
    and "\<not> ignored rs p"
    and "resolve nd p = Some x"
    and "\<not> is_dir x"
proof -
  from assms(2) have w: "(p, x) \<in> set (walk_files (\<lambda>d. d \<notin> extra_ignore_files rs) [] nd)"
    and ni: "\<not> ignored rs p"
    by (auto simp: visited_def)
  have "clean []" by (simp add: clean_def)
  from walk_files_facts [OF assms(1) this w]
  obtain cs where cs: "cs \<noteq> []" "parts p = cs" "lookup_parts nd cs = Some x" "\<not> is_dir x"
    "\<forall>c \<in> set (butlast cs). c \<notin> extra_ignore_files rs" "basename p = last cs"
    by (auto simp: parts_def)
  from ni cs(6) have "last cs \<notin> extra_ignore_files rs"
    by (auto simp: ignored_iff)
  moreover from cs(1) have "set cs = set (butlast cs) \<union> {last cs}"
    using append_butlast_last_id [of cs] set_append [of "butlast cs" "[last cs]"] by simp
  ultimately show "set (parts p) \<inter> extra_ignore_files rs = {}"
    using cs(2,5) by auto
  show "\<not> ignored rs p" by (rule ni)
  show "resolve nd p = Some x" using cs(2,3) by (simp add: resolve_def)
  show "\<not> is_dir x" by (rule cs(4))
qed

lemma visited_distinct: "wf_node nd \<Longrightarrow> distinct (map fst (visited rs nd))"
  unfolding visited_def
  by (rule distinct_map_filter) (simp add: walk_files_distinct clean_def)

lemma sections_of_append: "sections_of (xs @ ys) = sections_of xs @ sections_of ys"
  by (simp add: sections_of_def)

lemma skipped_of_append: "skipped_of (xs @ ys) = skipped_of xs @ skipped_of ys"
  by (simp add: skipped_of_def)

lemma walk_files_ancestors:
  assumes "wf_node nd" and "(p, x) \<in> set (walk_files keep [] nd)"
  shows "\<forall>c \<in> set (butlast (parts p)). keep c"
proof -
  have "clean []" by (simp add: clean_def)
  from walk_files_facts [OF assms(1) this assms(2)] show ?thesis
    by (auto simp: parts_def)
qed

lemma generate_tree_split_at:
  assumes "i < length kept" and "kept = surviving rs rel siblings"
  shows "generate_tree rs (Dir True lnk siblings) rel pre =
      concat (map (\<lambda>j. child_lines rs rel pre (j = length kept - 1) (kept ! j)) [0..<i])
      @ child_lines rs rel pre (i = length kept - 1) (kept ! i)
      @ concat (map (\<lambda>j. child_lines rs rel pre (j = length kept - 1) (kept ! j))
          [Suc i..<length kept])"
proof -
  from assms(1) have "[0..<length kept] = [0..<i] @ i # [Suc i..<length kept]"
    by (metis less_eq_nat.simps(1) upt_add_eq_append upt_conv_Cons le_add_diff_inverse
        less_imp_le_nat add_0)
  then show ?thesis
    unfolding generate_tree_Dir Let_def assms(2) [symmetric] by simp
qed

lemma visited_subset:
  "set (visited rs nd) \<subseteq> set (walk_files (\<lambda>d. d \<notin> extra_ignore_files rs) [] nd)"
  by (auto simp: visited_def)

lemma name_set_git: "isdir_at content ''.git'' \<Longrightarrow> ''.git'' \<in> extra_ignore_files (run_rules a content sp)"
  by (simp add: run_rules_def name_set_def)

lemma os_walk_no_raise: "Inl f \<notin> set (os_walk keep (\<lambda>rel. False) top_rel nd)"
proof (induction nd arbitrary: top_rel rule: node_induct)
  case (File regular fid r)
  show ?case by simp
next
  case (Dir listable lnk content)
  show ?case
    using Dir.IH by (auto simp: Let_def split: if_splits)
qed

lemma perform_raised: "raised st \<noteq> None \<Longrightarrow> perform w e st = st"
  by (cases e) (simp_all add: outf_write_def print_def raise_def)

lemma fold_perform_raised: "raised st \<noteq> None \<Longrightarrow> fold (perform w) evs st = st"
  by (induction evs) (simp_all add: perform_raised)

lemma fold_outf_write: "fold (outf_write w) cs st = fold (perform w) (map Write cs) st"
  by (induction cs arbitrary: st) simp_all

lemma fold_concat_map:
  assumes "\<And>x s. f x s = fold g (h x) s"
  shows "fold f xs s = fold g (concat (map h xs)) s"
  by (induction xs arbitrary: s) (simp_all add: assms)

lemma process_file_events:
  "process_file w rs root e st =
     fold (perform w)
       (concat (map visit_events (filter (\<lambda>(p, x). \<not> ignored rs p)
          [(path_join root (fst e), snd e)]))) st"
  by (cases e)
    (simp add: process_file_def visit_events_def fold_outf_write Let_def split: sum.splits)

lemma fold_process_file:
  "fold (process_file w rs root) files st =
     fold (perform w) (item_events rs (Inr (root, dirs, files))) st"
proof -
  have "fold (process_file w rs root) files st =
      fold (perform w)
        (concat (map (\<lambda>e. concat (map visit_events (filter (\<lambda>(p, x). \<not> ignored rs p)
            [(path_join root (fst e), snd e)]))) files)) st"
    by (rule fold_concat_map) (rule process_file_events)
  also have "concat (map (\<lambda>e. concat (map visit_events (filter (\<lambda>(p, x). \<not> ignored rs p)
            [(path_join root (fst e), snd e)]))) files)
      = item_events rs (Inr (root, dirs, files))"
    by (induction files) (simp_all add: item_events_def split_def)
  finally show ?thesis .
qed

lemma emit_contents_events:
  "emit_contents w rs target_dir st =
     fold (perform w)
       (concat (map (item_events rs)
          (os_walk (\<lambda>d. d \<notin> extra_ignore_files rs) (walk_overflows w) [] target_dir))) st"
  unfolding emit_contents_def
proof (rule fold_concat_map)
  fix item s
  show "(case item of Inl f \<Rightarrow> raise f s
          | Inr (root, dirs, files) \<Rightarrow> fold (process_file w rs root) files s)
      = fold (perform w) (item_events rs item) s"
  proof (cases item)
    case (Inl f)
    then show ?thesis by (simp add: item_events_def)
  next
    case (Inr t)
    obtain root dirs files where t: "t = (root, dirs, files)" by (cases t)
    show ?thesis
      unfolding Inr t using fold_process_file [of w rs root files s dirs] by simp
  qed
qed

lemma write_tree_events:
  "write_tree w rs target_dir st = fold (perform w) (tree_events w rs target_dir) st"
  by (simp add: write_tree_def tree_events_def Let_def fold_map comp_def)

lemma main_body_events:
  "main_body w a rs target_dir =
     fold (perform w) (run_events w a rs target_dir) \<lparr>outf = [], stdout = [], raised = None\<rparr>"
  by (simp add: main_body_def run_events_def write_tree_events emit_contents_events Let_def)

lemma writes_append: "writes (xs @ ys) = writes xs @ writes ys"
  by (simp add: writes_def)

lemma prints_append: "prints (xs @ ys) = prints xs @ prints ys"
  by (simp add: prints_def)

lemma writes_prefix: "prefix xs ys \<Longrightarrow> prefix (writes xs) (writes ys)"
  by (auto simp: prefix_def writes_append)

lemma prints_prefix: "prefix xs ys \<Longrightarrow> prefix (prints xs) (prints ys)"
  by (auto simp: prefix_def prints_append)

lemma fold_perform_prefix:
  "raised st = None \<Longrightarrow>
     prefix (outf (fold (perform w) evs st)) (outf st @ writes (until_raise evs))
   \<and> prefix (stdout (fold (perform w) evs st)) (stdout st @ prints (until_raise evs))"
proof (induction evs arbitrary: st)
  case Nil
  show ?case by (simp add: writes_def prints_def until_raise_def)
next
  case (Cons e evs)
  show ?case
  proof (cases "raised (perform w e st) = None")
    case False
    then have f: "fold (perform w) (e # evs) st = perform w e st"
      by (simp add: fold_perform_raised)
    from False Cons.prems have "outf (perform w e st) = outf st \<and> stdout (perform w e st) = stdout st"
      by (cases e) (auto simp: outf_write_def print_def raise_def split: if_splits)
    with f show ?thesis by simp
  next
    case True
    note ih = Cons.IH [OF True]
    show ?thesis
    proof (cases e)
      case (Write chunk)
      with True Cons.prems have st: "outf_write w chunk st = st\<lparr>outf := outf st @ [chunk]\<rparr>"
        by (auto simp: outf_write_def split: if_splits)
      from ih show ?thesis
        by (simp add: st Write until_raise_def writes_def prints_def)
    next
      case (Print line)
      with True Cons.prems have st: "print w line st = st\<lparr>stdout := stdout st @ [line]\<rparr>"
        by (auto simp: print_def split: if_splits)
      from ih show ?thesis
        by (simp add: st Print until_raise_def writes_def prints_def)
    next
      case (Raise f)
      with True Cons.prems show ?thesis
        by (simp add: raise_def)
    qed
  qed
qed

lemma fold_perform_complete:
  "raised st = None \<Longrightarrow> raised (fold (perform w) evs st) = None \<Longrightarrow>
     no_raise evs
   \<and> outf (fold (perform w) evs st) = outf st @ writes evs
   \<and> stdout (fold (perform w) evs st) = stdout st @ prints evs"
proof (induction evs arbitrary: st)
  case Nil
  show ?case by (simp add: writes_def prints_def no_raise_def)
next
  case (Cons e evs)
  have r: "raised (perform w e st) = None"
  proof (rule ccontr)
    assume n: "raised (perform w e st) \<noteq> None"
    then have "fold (perform w) (e # evs) st = perform w e st"
      by (simp add: fold_perform_raised)
    with Cons.prems(2) n show False by simp
  qed
  from Cons.prems(2) have r2: "raised (fold (perform w) evs (perform w e st)) = None"
    by simp
  note ih = Cons.IH [OF r r2]
  show ?case
  proof (cases e)
    case (Write chunk)
    with r Cons.prems(1) have st: "outf_write w chunk st = st\<lparr>outf := outf st @ [chunk]\<rparr>"
      by (auto simp: outf_write_def split: if_splits)
    from ih show ?thesis
      by (simp add: st Write no_raise_def writes_def prints_def)
  next
    case (Print line)
    with r Cons.prems(1) have st: "print w line st = st\<lparr>stdout := stdout st @ [line]\<rparr>"
      by (auto simp: print_def split: if_splits)
    from ih show ?thesis
      by (simp add: st Print no_raise_def writes_def prints_def)
  next
    case (Raise f)
    with r Cons.prems(1) show ?thesis
      by (simp add: raise_def)
  qed
qed

lemma fold_perform_accepted:
  "raised st = None \<Longrightarrow> list_all (accepted w) evs \<Longrightarrow> raised (fold (perform w) evs st) = None"
proof (induction evs arbitrary: st)
  case Nil
  then show ?case by simp
next
  case (Cons e evs)
  from Cons.prems have "raised (perform w e st) = None"
    by (cases e) (simp_all add: outf_write_def print_def)
  with Cons.prems(2) show ?case
    by (simp add: Cons.IH)
qed

lemma accepted_all:
  assumes "\<And>t. outf_accepts w t" and "\<And>l. stdout_accepts w l"
  shows "no_raise evs \<Longrightarrow> list_all (accepted w) evs"
proof (induction evs)
  case Nil
  show ?case by simp
next
  case (Cons e evs)
  then show ?case
    using assms by (cases e) (simp_all add: no_raise_def)
qed

lemma truncates_refl: "truncates evs evs"
  by (simp add: truncates_def until_raise_def takeWhile_is_prefix)

lemma truncates_Raise: "truncates (Raise f # evs) full"
  by (simp add: truncates_def until_raise_def no_raise_def)

lemma truncates_append:
  assumes "truncates a1 f1" and "truncates a2 f2"
  shows "truncates (a1 @ a2) (f1 @ f2)"
proof (cases "no_raise a1")
  case True
  with assms(1) have e: "a1 = f1" by (simp add: truncates_def)
  from True have "until_raise (a1 @ a2) = a1 @ until_raise a2"
    by (simp add: until_raise_def no_raise_def takeWhile_append2 list_all_iff)
  with assms(2) e show ?thesis
    by (simp add: truncates_def no_raise_def)
next
  case False
  then have "until_raise (a1 @ a2) = until_raise a1"
    by (auto simp: until_raise_def no_raise_def list_all_iff takeWhile_append1)
  with assms(1) False show ?thesis
    by (auto simp: truncates_def no_raise_def intro: prefix_order.trans)
qed

lemma truncates_concat:
  assumes "\<And>x. x \<in> set xs \<Longrightarrow> truncates (F x) (G x)"
  shows "truncates (concat (map F xs)) (concat (map G xs))"
  using assms
proof (induction xs)
  case Nil
  show ?case by (simp add: truncates_refl)
next
  case (Cons x xs)
  then show ?case by (simp add: truncates_append)
qed

lemma walk_events_truncates:
  "truncates (concat (map (item_events rs) (os_walk keep overflows top_rel nd)))
     (concat (map (item_events rs) (os_walk keep (\<lambda>rel. False) top_rel nd)))"
proof (induction nd arbitrary: top_rel rule: node_induct)
  case (File regular fid r)
  show ?case by (simp add: truncates_refl)
next
  case (Dir listable lnk content)
  let ?dirs = "filter (\<lambda>(d, nd). keep d) (filter (\<lambda>(name, nd). is_dir nd) content)"
  let ?item = "Inr (top_rel, ?dirs, filter (\<lambda>(name, nd). \<not> is_dir nd) content)"
  have cc: "concat (map F (concat (map G ds))) = concat (map (\<lambda>d. concat (map F (G d))) ds)"
    for F :: "'a \<Rightarrow> 'b list" and G :: "'c \<Rightarrow> 'a list" and ds
    by (induction ds) simp_all
  have sub: "truncates
      (concat (map (\<lambda>d. concat (map (item_events rs)
          (if is_link (snd d) then []
           else os_walk keep overflows (path_join top_rel (fst d)) (snd d)))) ?dirs))
      (concat (map (\<lambda>d. concat (map (item_events rs)
          (if is_link (snd d) then []
           else os_walk keep (\<lambda>rel. False) (path_join top_rel (fst d)) (snd d)))) ?dirs))"
  proof (rule truncates_concat)
    fix d assume "d \<in> set ?dirs"
    then have "(fst d, snd d) \<in> set content" by auto
    from Dir.IH [OF this] show "truncates
        (concat (map (item_events rs)
          (if is_link (snd d) then []
           else os_walk keep overflows (path_join top_rel (fst d)) (snd d))))
        (concat (map (item_events rs)
          (if is_link (snd d) then []
           else os_walk keep (\<lambda>rel. False) (path_join top_rel (fst d)) (snd d))))"
      by (simp add: truncates_refl)
  qed
  show ?case
  proof (cases "overflows top_rel")
    case True
    then show ?thesis
      by (simp add: item_events_def truncates_Raise)
  next
    case False
    show ?thesis
    proof (cases listable)
      case False
      with \<open>\<not> overflows top_rel\<close> show ?thesis by (simp add: truncates_refl)
    next
      case True
      have "truncates (item_events rs ?item @
          concat (map (\<lambda>d. concat (map (item_events rs)
            (if is_link (snd d) then []
             else os_walk keep overflows (path_join top_rel (fst d)) (snd d)))) ?dirs))
        (item_events rs ?item @
          concat (map (\<lambda>d. concat (map (item_events rs)
            (if is_link (snd d) then []
             else os_walk keep (\<lambda>rel. False) (path_join top_rel (fst d)) (snd d)))) ?dirs))"
        using truncates_refl sub by (rule truncates_append)
      with True \<open>\<not> overflows top_rel\<close> show ?thesis
        by (simp add: Let_def cc split_def)
    qed
  qed
qed

lemma items_events_walked:
  assumes "\<And>f. Inl f \<notin> set items"
  shows "concat (map (item_events rs) items) =
     concat (map visit_events (filter (\<lambda>(p, x). \<not> ignored rs p)
       (concat (map (\<lambda>item. case item of Inl f \<Rightarrow> []
          | Inr (root, dirs, files) \<Rightarrow> map (\<lambda>(file, x). (path_join root file, x)) files) items))))"
  using assms
proof (induction items)
  case Nil
  show ?case by simp
next
  case (Cons item items)
  from Cons.prems have ih: "concat (map (item_events rs) items) =
     concat (map visit_events (filter (\<lambda>(p, x). \<not> ignored rs p)
       (concat (map (\<lambda>item. case item of Inl f \<Rightarrow> []
          | Inr (root, dirs, files) \<Rightarrow> map (\<lambda>(file, x). (path_join root file, x)) files) items))))"
    by (intro Cons.IH) auto
  show ?case
  proof (cases item)
    case (Inl f)
    with Cons.prems [of f] show ?thesis by simp
  next
    case (Inr t)
    obtain root dirs files where t: "t = (root, dirs, files)" by (cases t)
    have h: "item_events rs (Inr (root, dirs, files)) =
        concat (map visit_events (filter (\<lambda>(p, x). \<not> ignored rs p)
          (map (\<lambda>(file, x). (path_join root file, x)) files)))"
      by (simp add: item_events_def)
    show ?thesis
      unfolding Inr t using ih by (simp add: h)
  qed
qed

lemma full_walk_events:
  "concat (map (item_events rs)
      (os_walk (\<lambda>d. d \<notin> extra_ignore_files rs) (\<lambda>rel. False) [] target_dir))
   = concat (map visit_events (visited rs target_dir))"
  unfolding visited_def walk_files_def
  by (rule items_events_walked) (rule os_walk_no_raise)

lemma tree_events_truncates:
  "truncates (tree_events w rs target_dir) (map Write (tree_region rs target_dir))"
proof (cases "\<exists>rel \<in> set (generate_tree_calls rs target_dir []). tree_overflows w rel")
  case True
  have "truncates
      ([Write (''#### Project Directory Tree'' @ nl @ nl), Write (fence @ nl)] @ [Raise RecursionError])
      ([Write (''#### Project Directory Tree'' @ nl @ nl), Write (fence @ nl)]
       @ map Write (map (\<lambda>line. line @ nl) (generate_tree rs target_dir [] []) @ [fence @ nl @ nl]))"
    using truncates_refl truncates_Raise by (rule truncates_append)
  with True show ?thesis
    by (simp add: tree_events_def tree_region_def nl_def fence_def)
next
  case False
  have "tree_events w rs target_dir = map Write (tree_region rs target_dir)"
    using False by (simp add: tree_events_def tree_region_def nl_def fence_def comp_def)
  then show ?thesis by (simp add: truncates_refl)
qed

lemma run_events_truncates:
  "truncates (run_events w a rs target_dir) (full_events w a rs target_dir)"
proof -
  have h: "truncates [Write (description (target_dir_name w) @ nl @ nl)]
      [Write (description (target_dir_name w) @ [CHR 0x0A, CHR 0x0A])]"
    by (simp add: nl_def truncates_refl)
  have t: "truncates (if no_tree a then [] else tree_events w rs target_dir)
      (map Write (if no_tree a then [] else tree_region rs target_dir))"
    by (simp add: truncates_refl tree_events_truncates)
  have e: "truncates
      (concat (map (item_events rs)
         (os_walk (\<lambda>d. d \<notin> extra_ignore_files rs) (walk_overflows w) [] target_dir)))
      (concat (map visit_events (visited rs target_dir)))"
    using walk_events_truncates [of rs "\<lambda>d. d \<notin> extra_ignore_files rs" "walk_overflows w" "[]" target_dir]
    by (simp add: full_walk_events)
  from truncates_append [OF h truncates_append [OF t e]] show ?thesis
    by (simp add: run_events_def full_events_def preamble_def)
qed

lemma writes_map_Write: "writes (map Write cs) = cs"
  by (induction cs) (simp_all add: writes_def)

lemma prints_map_Write: "prints (map Write cs) = []"
  by (induction cs) (simp_all add: prints_def)

lemma writes_visits: "writes (concat (map visit_events vs)) = render_sections (sections_of vs)"
proof (induction vs)
  case Nil
  show ?case by (simp add: writes_def render_sections_def sections_of_def)
next
  case (Cons v vs)
  obtain p x where v: "v = (p, x)" by (cases v)
  have "writes (visit_events (p, x)) = render_sections (sections_of [(p, x)])"
    by (cases "read_text x")
      (simp_all add: writes_def visit_events_def render_sections_def sections_of_def
        section_chunks_def skip_message_def nl_def fence_def)
  with Cons.IH show ?case
    using sections_of_append [of "[(p, x)]" vs]
    by (simp add: v writes_append render_sections_def)
qed

lemma prints_visits: "prints (concat (map visit_events vs)) = render_skipped (skipped_of vs)"
proof (induction vs)
  case Nil
  show ?case by (simp add: prints_def render_skipped_def skipped_of_def)
next
  case (Cons v vs)
  obtain p x where v: "v = (p, x)" by (cases v)
  have "prints (visit_events (p, x)) = render_skipped (skipped_of [(p, x)])"
    by (cases "read_text x")
      (simp_all add: prints_def visit_events_def render_skipped_def skipped_of_def
        section_chunks_def skip_message_def)
  with Cons.IH show ?case
    using skipped_of_append [of "[(p, x)]" vs]
    by (simp add: v prints_append render_skipped_def)
qed

lemma writes_full:
  "writes (full_events w a rs target_dir) =
     preamble w a rs target_dir @ render_sections (sections_of (visited rs target_dir))"
  by (simp add: full_events_def writes_append writes_map_Write writes_visits)

lemma prints_full:
  "prints (full_events w a rs target_dir) = render_skipped (skipped_of (visited rs target_dir))"
  by (simp add: full_events_def prints_append prints_map_Write prints_visits)

lemma body_prefix:
  "prefix (outf (main_body w a rs target_dir))
     (preamble w a rs target_dir @ render_sections (sections_of (visited rs target_dir)))"
  "prefix (stdout (main_body w a rs target_dir))
     (render_skipped (skipped_of (visited rs target_dir)))"
proof -
  let ?st = "\<lparr>outf = [], stdout = [], raised = None\<rparr>"
  have t: "prefix (until_raise (run_events w a rs target_dir)) (full_events w a rs target_dir)"
    using run_events_truncates [of w a rs target_dir] by (simp add: truncates_def)
  from fold_perform_prefix [of ?st w "run_events w a rs target_dir"]
  have o: "prefix (outf (main_body w a rs target_dir)) (writes (until_raise (run_events w a rs target_dir)))"
    and s: "prefix (stdout (main_body w a rs target_dir)) (prints (until_raise (run_events w a rs target_dir)))"
    by (simp_all add: main_body_events)
  from o writes_prefix [OF t]
  show "prefix (outf (main_body w a rs target_dir))
     (preamble w a rs target_dir @ render_sections (sections_of (visited rs target_dir)))"
    unfolding writes_full by (rule prefix_order.trans)
  from s prints_prefix [OF t]
  show "prefix (stdout (main_body w a rs target_dir))
     (render_skipped (skipped_of (visited rs target_dir)))"
    unfolding prints_full by (rule prefix_order.trans)
qed

lemma body_complete:
  assumes "raised (main_body w a rs target_dir) = None"
  shows "outf (main_body w a rs target_dir) =
       preamble w a rs target_dir @ render_sections (sections_of (visited rs target_dir))"
    and "stdout (main_body w a rs target_dir) =
       render_skipped (skipped_of (visited rs target_dir))"
proof -
  let ?st = "\<lparr>outf = [], stdout = [], raised = None\<rparr>"
  from assms fold_perform_complete [of ?st w "run_events w a rs target_dir"]
  have n: "no_raise (run_events w a rs target_dir)"
    and o: "outf (main_body w a rs target_dir) = writes (run_events w a rs target_dir)"
    and s: "stdout (main_body w a rs target_dir) = prints (run_events w a rs target_dir)"
    by (simp_all add: main_body_events)
  from n run_events_truncates [of w a rs target_dir]
  have e: "run_events w a rs target_dir = full_events w a rs target_dir"
    by (simp add: truncates_def)
  show "outf (main_body w a rs target_dir) =
       preamble w a rs target_dir @ render_sections (sections_of (visited rs target_dir))"
    using o by (simp add: e writes_full)
  show "stdout (main_body w a rs target_dir) =
       render_skipped (skipped_of (visited rs target_dir))"
    using s by (simp add: e prints_full)
qed

lemma no_raise_visits: "no_raise (concat (map visit_events vs))"
proof (induction vs)
  case Nil
  show ?case by (simp add: no_raise_def)
next
  case (Cons v vs)
  obtain p x where v: "v = (p, x)" by (cases v)
  have "no_raise (visit_events (p, x))"
    by (cases "read_text x") (simp_all add: no_raise_def visit_events_def section_chunks_def)
  with Cons.IH show ?case
    by (simp add: v no_raise_def)
qed

lemma body_success:
  assumes "\<And>t. outf_accepts w t" and "\<And>l. stdout_accepts w l"
    and "\<And>p. \<not> tree_overflows w p" and "\<And>p. \<not> walk_overflows w p"
  shows "raised (main_body w a rs target_dir) = None"
proof -
  have wo: "walk_overflows w = (\<lambda>rel. False)"
    using assms(4) by (intro ext) simp
  have t: "no_raise (tree_events w rs target_dir)"
    using assms(3) by (simp add: tree_events_def no_raise_def list_all_iff)
  have e: "no_raise (concat (map (item_events rs)
         (os_walk (\<lambda>d. d \<notin> extra_ignore_files rs) (walk_overflows w) [] target_dir)))"
    unfolding wo full_walk_events by (rule no_raise_visits)
  from t e have "no_raise (run_events w a rs target_dir)"
    by (simp add: run_events_def no_raise_def)
  then have "list_all (accepted w) (run_events w a rs target_dir)"
    using assms(1,2) by (intro accepted_all)
  then show ?thesis
    unfolding main_body_events by (intro fold_perform_accepted) simp
qed

lemma main_outcome:
  assumes "target w = Some (Dir listable lnk content)"
    and "load_spec w content = Inr sp"
    and "output_writable w"
  shows "main w a =
     (case raised (main_body w a (run_rules a content sp) (Dir listable lnk content)) of
        None \<Rightarrow> Inr (main_body w a (run_rules a content sp) (Dir listable lnk content))
      | Some f \<Rightarrow> Inl f)"
  unfolding main_def Let_def using assms by simp

lemma not_dir_read: "\<not> is_dir x \<Longrightarrow> read_text x = Inr c \<Longrightarrow> \<exists>regular fid. x = File regular fid (Inr c)"
  by (cases x) simp_all

lemma main_Inr_D:
  assumes "target w = Some (Dir listable lnk content)" and "main w a = Inr r"
  shows "\<exists>sp. load_spec w content = Inr sp \<and> output_writable w
     \<and> r = main_body w a (run_rules a content sp) (Dir listable lnk content)
     \<and> raised (main_body w a (run_rules a content sp) (Dir listable lnk content)) = None"
proof (cases "load_spec w content")
  case (Inl e)
  with assms show ?thesis
    unfolding main_def by simp
next
  case (Inr sp)
  show ?thesis
  proof (cases "raised (main_body w a (run_rules a content sp) (Dir listable lnk content))")
    case None
    with assms Inr show ?thesis
      unfolding main_def Let_def by (cases "output_writable w") simp_all
  next
    case (Some f)
    with assms Inr show ?thesis
      unfolding main_def Let_def by (cases "output_writable w") simp_all
  qed
qed

lemma run_outcome:
  assumes "target w = Some (Dir listable lnk content)"
    and "load_spec w content = Inr sp"
    and "output_writable w"
  shows "main w a =
       (case raised (main_body w a (run_rules a content sp) (Dir listable lnk content)) of
          None \<Rightarrow> Inr (main_body w a (run_rules a content sp) (Dir listable lnk content))
        | Some f \<Rightarrow> Inl f)"
    and "prefix (outf (main_body w a (run_rules a content sp) (Dir listable lnk content)))
       (preamble w a (run_rules a content sp) (Dir listable lnk content)
        @ render_sections (sections_of (visited (run_rules a content sp) (Dir listable lnk content))))"
    and "prefix (stdout (main_body w a (run_rules a content sp) (Dir listable lnk content)))
       (render_skipped (skipped_of (visited (run_rules a content sp) (Dir listable lnk content))))"
    and "raised (main_body w a (run_rules a content sp) (Dir listable lnk content)) = None \<longrightarrow>
       outf (main_body w a (run_rules a content sp) (Dir listable lnk content)) =
         preamble w a (run_rules a content sp) (Dir listable lnk content)
         @ render_sections (sections_of (visited (run_rules a content sp) (Dir listable lnk content)))
     \<and> stdout (main_body w a (run_rules a content sp) (Dir listable lnk content)) =
         render_skipped (skipped_of (visited (run_rules a content sp) (Dir listable lnk content)))"
    and "(\<forall>t. outf_accepts w t) \<and> (\<forall>l. stdout_accepts w l)
       \<and> (\<forall>p. \<not> tree_overflows w p) \<and> (\<forall>p. \<not> walk_overflows w p) \<longrightarrow>
       raised (main_body w a (run_rules a content sp) (Dir listable lnk content)) = None"
proof -
  show "main w a =
       (case raised (main_body w a (run_rules a content sp) (Dir listable lnk content)) of
          None \<Rightarrow> Inr (main_body w a (run_rules a content sp) (Dir listable lnk content))
        | Some f \<Rightarrow> Inl f)"
    using assms by (rule main_outcome)
  show "prefix (outf (main_body w a (run_rules a content sp) (Dir listable lnk content)))
       (preamble w a (run_rules a content sp) (Dir listable lnk content)
        @ render_sections (sections_of (visited (run_rules a content sp) (Dir listable lnk content))))"
    by (rule body_prefix)
  show "prefix (stdout (main_body w a (run_rules a content sp) (Dir listable lnk content)))
       (render_skipped (skipped_of (visited (run_rules a content sp) (Dir listable lnk content))))"
    by (rule body_prefix)
  show "raised (main_body w a (run_rules a content sp) (Dir listable lnk content)) = None \<longrightarrow>
       outf (main_body w a (run_rules a content sp) (Dir listable lnk content)) =
         preamble w a (run_rules a content sp) (Dir listable lnk content)
         @ render_sections (sections_of (visited (run_rules a content sp) (Dir listable lnk content)))
     \<and> stdout (main_body w a (run_rules a content sp) (Dir listable lnk content)) =
         render_skipped (skipped_of (visited (run_rules a content sp) (Dir listable lnk content)))"
    using body_complete by blast
  show "(\<forall>t. outf_accepts w t) \<and> (\<forall>l. stdout_accepts w l)
       \<and> (\<forall>p. \<not> tree_overflows w p) \<and> (\<forall>p. \<not> walk_overflows w p) \<longrightarrow>
       raised (main_body w a (run_rules a content sp) (Dir listable lnk content)) = None"
    using body_success by blast
qed

lemma filter_key_single:
  "distinct (map fst xs) \<Longrightarrow> (p, c) \<in> set xs \<Longrightarrow> filter (\<lambda>s. fst s = p) xs = [(p, c)]"
proof (induction xs)
  case Nil
  then show ?case by simp
next
  case (Cons x xs)
  show ?case
  proof (cases "x = (p, c)")
    case True
    from Cons.prems(1) True have "p \<notin> fst ` set xs" by simp
    then have "filter (\<lambda>s. fst s = p) xs = []"
      by (auto simp: filter_empty_conv)
    with True show ?thesis by simp
  next
    case False
    with Cons.prems have in_xs: "(p, c) \<in> set xs" by simp
    with Cons.prems(1) have "fst x \<noteq> p" by (auto simp: image_iff)
    with Cons.IH in_xs Cons.prems(1) show ?thesis by simp
  qed
qed


lemma demo_wf: "wf_node (Dir True False demo_content)"
  by (simp add: demo_content_def valid_name_def sep_def)

lemma demo_target: "target demo_world = Some (Dir True False demo_content)"
  by (simp add: demo_world_def)

lemma demo_load_spec: "load_spec demo_world demo_content = Inr None"
  by (simp add: load_spec_def isfile_at_def demo_content_def)

lemma demo_writable: "output_writable demo_world"
  by (simp add: demo_world_def)

lemma demo_accepts:
  "(\<forall>t. outf_accepts demo_world t) \<and> (\<forall>l. stdout_accepts demo_world l)
   \<and> (\<forall>p. \<not> tree_overflows demo_world p) \<and> (\<forall>p. \<not> walk_overflows demo_world p)"
  by (simp add: demo_world_def)

lemma demo_git: "isdir_at demo_content ''.git''"
  by (simp add: isdir_at_def demo_content_def)

lemma demo_rules_eval:
  "demo_rules = \<lparr>spec = None, extra_ignore_files = {''.git''}, extra_ignore_extensions = {''.log''}\<rparr>"
  by (simp add: demo_rules_def run_rules_def name_set_def isdir_at_def demo_content_def demo_args_def)

lemma demo_surviving:
  "surviving demo_rules [] demo_content =
     [(''a.txt'', File True 5 (Inr ''hello'')),
      (''bad.bin'', File True 6 (Inl ''invalid start byte'')),
      (''conf.d'', Dir True False
         [(''.git'', File True 2 (Inr ''gitdir: ../.git'')), (''x.txt'', File True 3 (Inr ''hi''))]),
      (''sub'', Dir False False [(''y'', File True 7 (Inr ''y''))])]"
  by (simp add: demo_rules_eval surviving_def demo_content_def ignored_iff entry_rel_def
      basename_def sep_def endswith_rev)

lemma demo_visited:
  "visited demo_rules (Dir True False demo_content) =
     [(''a.txt'', File True 5 (Inr ''hello''))]
     @ (''bad.bin'', File True 6 (Inl ''invalid start byte''))
     # [(''conf.d/x.txt'', File True 3 (Inr ''hi''))]"
  by (simp add: demo_rules_eval visited_def walk_files_def demo_content_def ignored_iff
      path_join_def basename_def sep_def endswith_rev suffix_to_prefix)

lemma demo_sections:
  "sections_of (visited demo_rules (Dir True False demo_content)) =
     [(''a.txt'', ''hello''), (''conf.d/x.txt'', ''hi'')]"
  by (simp add: demo_visited sections_of_def)

lemma demo_rows:
  "tree_rows demo_rules (Dir True False demo_content) [] [] =
     [([], False, ''a.txt'', ''a.txt''),
      ([], False, ''bad.bin'', ''bad.bin''),
      ([], False, ''conf.d'', ''conf.d''),
      (extension False, True, ''x.txt'', ''conf.d/x.txt''),
      ([], True, ''sub'', ''sub'')]"
  by (simp add: demo_rules_eval surviving_def demo_content_def ignored_iff entry_rel_def
      path_join_def basename_def sep_def endswith_rev suffix_to_prefix)

lemma demo_main:
  "main demo_world demo_args =
     Inr (main_body demo_world demo_args demo_rules (Dir True False demo_content))"
proof -
  have "raised (main_body demo_world demo_args (run_rules demo_args demo_content None)
      (Dir True False demo_content)) = None"
    using demo_accepts by (intro body_success) simp_all
  with main_outcome [OF demo_target demo_load_spec demo_writable, of demo_args]
  show ?thesis
    by (simp add: demo_rules_def)
qed

lemma lk_rules:
  "run_rules lk_args lk_content None =
     \<lparr>spec = None, extra_ignore_files = {}, extra_ignore_extensions = {}\<rparr>"
  by (simp add: run_rules_def name_set_def isdir_at_def lk_content_def lk_args_def)

lemma lk_events:
  "run_events lk_world lk_args (run_rules lk_args lk_content None) (Dir True False lk_content) =
     Write (description ''proj'' @ nl @ nl)
     # map Write (section_chunks ''a.txt'' ''hello'')
     @ map Write (section_chunks ''b.txt'' ''hello'')"
  unfolding lk_rules
  by (simp add: run_events_def item_events_def visit_events_def lk_world_def lk_args_def
      lk_content_def ignored_iff path_join_def basename_def sep_def)

lemma lk_body:
  "main_body lk_world lk_args (run_rules lk_args lk_content None) (Dir True False lk_content) =
     \<lparr>outf = (description ''proj'' @ [CHR 0x0A, CHR 0x0A])
             # render_sections [(''a.txt'', ''hello''), (''b.txt'', ''hello'')],
      stdout = [], raised = None\<rparr>"
  unfolding main_body_events lk_events
  by (simp add: outf_write_def lk_world_def section_chunks_def render_sections_def nl_def fence_def)

lemma bad_rules:
  "run_rules bad_args bad_content None =
     \<lparr>spec = None, extra_ignore_files = {}, extra_ignore_extensions = {}\<rparr>"
  by (simp add: run_rules_def name_set_def isdir_at_def bad_content_def bad_args_def bad_name_def)

lemma bad_events:
  "run_events w bad_args (run_rules bad_args bad_content None) (Dir True False bad_content) =
     (if walk_overflows w [] then [Write (description (target_dir_name w) @ nl @ nl), Raise RecursionError]
      else Write (description (target_dir_name w) @ nl @ nl)
        # Print (''Skipping file '' @ bad_name @ '', reason: Permission denied'')
        # map Write (section_chunks ''z.txt'' ''ok''))"
  unfolding bad_rules
  by (simp add: run_events_def item_events_def visit_events_def bad_args_def
      bad_content_def bad_name_def skip_message_def ignored_iff path_join_def basename_def sep_def)

lemma bad_accepts:
  "outf_accepts bad_world (description ''proj'' @ nl @ nl)"
  "outf_accepts bad_world_lenient (description ''proj'' @ nl @ nl)"
  "\<not> stdout_accepts bad_world (''Skipping file '' @ bad_name @ '', reason: Permission denied'')"
  "stdout_accepts bad_world_lenient l"
  "outf_accepts bad_world_lenient (''===== z.txt ====='' @ nl)"
  "outf_accepts bad_world_lenient (fence @ nl)"
  "outf_accepts bad_world_lenient ''ok''"
  "outf_accepts bad_world_lenient (nl @ fence @ nl @ nl)"
  "target_dir_name bad_world = ''proj''"
  "target_dir_name bad_world_lenient = ''proj''"
  "\<not> walk_overflows bad_world []"
  "\<not> walk_overflows bad_world_lenient []"
  by (simp_all add: bad_world_def bad_world_lenient_def bad_name_def description_def nl_def
      fence_def)

lemma bad_body:
  "main_body bad_world bad_args (run_rules bad_args bad_content None) (Dir True False bad_content) =
     \<lparr>outf = [description ''proj'' @ [CHR 0x0A, CHR 0x0A]], stdout = [],
      raised = Some (PrintFailed (''Skipping file '' @ bad_name @ '', reason: Permission denied''))\<rparr>"
  unfolding main_body_events bad_events
  using bad_accepts(1,3)
  by (simp add: outf_write_def print_def bad_accepts(9,11) section_chunks_def nl_def)

lemma bad_body_lenient:
  "main_body bad_world_lenient bad_args (run_rules bad_args bad_content None)
       (Dir True False bad_content) =
     \<lparr>outf = (description ''proj'' @ [CHR 0x0A, CHR 0x0A]) # render_sections [(''z.txt'', ''ok'')],
      stdout = [''Skipping file '' @ bad_name @ '', reason: Permission denied''],
      raised = None\<rparr>"
  unfolding main_body_events bad_events
  using bad_accepts(2,5-8)
  by (simp add: outf_write_def print_def bad_accepts(4,10,12) section_chunks_def
      render_sections_def nl_def fence_def)

text \<open>
  Runs that an exception ends: a tree line that cannot be encoded, the recursion limit
  reached by \<open>generate_tree\<close> and by \<open>os.walk\<close>; and a \<open>.gitignore\<close> that is not a regular
  file, which is not loaded.
\<close>

lemma unencodable_name_ends_tree:
  "main bad_world (bad_args\<lparr>no_tree := False\<rparr>) =
     Inl (WriteFailed (box_up_right @ box_h @ box_h @ '' '' @ bad_name @ [CHR 0x0A]))"
proof -
  let ?a = "bad_args\<lparr>no_tree := False\<rparr>"
  have rs: "run_rules ?a bad_content None =
      \<lparr>spec = None, extra_ignore_files = {}, extra_ignore_extensions = {}\<rparr>"
    by (simp add: run_rules_def name_set_def isdir_at_def bad_content_def bad_args_def bad_name_def)
  have ev: "tree_events bad_world
        \<lparr>spec = None, extra_ignore_files = {}, extra_ignore_extensions = {}\<rparr>
        (Dir True False bad_content) =
      [Write (''#### Project Directory Tree'' @ nl @ nl), Write (fence @ nl),
       Write (box_v_right @ box_h @ box_h @ '' z.txt'' @ nl),
       Write (box_up_right @ box_h @ box_h @ '' '' @ bad_name @ nl),
       Write (fence @ nl @ nl)]"
    by (simp add: tree_events_def bad_world_def bad_content_def bad_name_def ignored_iff
        entry_rel_def basename_def sep_def connector_def)
  have acc: "outf_accepts bad_world (''#### Project Directory Tree'' @ nl @ nl)"
    "outf_accepts bad_world (fence @ nl)"
    "outf_accepts bad_world (box_v_right @ box_h @ box_h @ '' z.txt'' @ nl)"
    "\<not> outf_accepts bad_world (box_up_right @ box_h @ box_h @ '' '' @ bad_name @ nl)"
    by (simp_all add: bad_world_def bad_name_def nl_def fence_def box_v_right_def box_h_def
        box_up_right_def)
  have t: "target bad_world = Some (Dir True False bad_content)"
    and l: "load_spec bad_world bad_content = Inr None"
    and o: "output_writable bad_world"
    by (simp_all add: bad_world_def load_spec_def isfile_at_def bad_content_def bad_name_def)
  have "raised (main_body bad_world ?a (run_rules ?a bad_content None) (Dir True False bad_content))
      = Some (WriteFailed (box_up_right @ box_h @ box_h @ '' '' @ bad_name @ [CHR 0x0A]))"
    unfolding main_body_events rs run_events_def
    using bad_accepts(1) acc
    by (simp add: ev bad_args_def bad_accepts(9) outf_write_def fold_perform_raised nl_def)
  then show ?thesis
    unfolding main_outcome [OF t l o] by simp
qed

lemma recursion_limit_ends_tree:
  "main (demo_world\<lparr>tree_overflows := (\<lambda>rel. rel = ''conf.d'')\<rparr>) demo_args = Inl RecursionError"
proof -
  let ?w = "demo_world\<lparr>tree_overflows := (\<lambda>rel. rel = ''conf.d'')\<rparr>"
  have t: "target ?w = Some (Dir True False demo_content)"
    and l: "load_spec ?w demo_content = Inr None"
    and o: "output_writable ?w"
    by (simp_all add: demo_world_def load_spec_def isfile_at_def demo_content_def)
  have c: "''conf.d'' \<in> set (generate_tree_calls demo_rules (Dir True False demo_content) [])"
    by (simp add: demo_rules_eval demo_content_def ignored_iff entry_rel_def basename_def
        sep_def endswith_rev)
  have acc: "outf_accepts ?w t" for t
    by (simp add: demo_world_def)
  have ev: "tree_events ?w demo_rules (Dir True False demo_content) =
      [Write (''#### Project Directory Tree'' @ nl @ nl), Write (fence @ nl), Raise RecursionError]"
    unfolding tree_events_def using c by auto
  have "raised (main_body ?w demo_args demo_rules (Dir True False demo_content)) = Some RecursionError"
    unfolding main_body_events run_events_def ev
    using acc by (simp add: demo_args_def outf_write_def raise_def fold_perform_raised)
  then show ?thesis
    unfolding main_outcome [OF t l o] demo_rules_def by simp
qed

lemma recursion_limit_ends_walk:
  "main (demo_world\<lparr>walk_overflows := (\<lambda>rel. rel = ''conf.d'')\<rparr>) (demo_args\<lparr>no_tree := True\<rparr>) =
     Inl RecursionError
   \<and> outf (main_body (demo_world\<lparr>walk_overflows := (\<lambda>rel. rel = ''conf.d'')\<rparr>)
        (demo_args\<lparr>no_tree := True\<rparr>) demo_rules (Dir True False demo_content)) =
       (description ''proj'' @ [CHR 0x0A, CHR 0x0A]) # render_sections [(''a.txt'', ''hello'')]
   \<and> stdout (main_body (demo_world\<lparr>walk_overflows := (\<lambda>rel. rel = ''conf.d'')\<rparr>)
        (demo_args\<lparr>no_tree := True\<rparr>) demo_rules (Dir True False demo_content)) =
       [''Skipping file bad.bin, reason: invalid start byte'']"
proof -
  let ?w = "demo_world\<lparr>walk_overflows := (\<lambda>rel. rel = ''conf.d'')\<rparr>"
  let ?a = "demo_args\<lparr>no_tree := True\<rparr>"
  have t: "target ?w = Some (Dir True False demo_content)"
    and l: "load_spec ?w demo_content = Inr None"
    and o: "output_writable ?w"
    by (simp_all add: demo_world_def load_spec_def isfile_at_def demo_content_def)
  have rs: "run_rules ?a demo_content None = demo_rules"
    by (simp add: demo_rules_def run_rules_def name_set_def)
  have ev: "run_events ?w ?a demo_rules (Dir True False demo_content) =
      Write (description ''proj'' @ nl @ nl)
      # map Write (section_chunks ''a.txt'' ''hello'')
      @ [Print (skip_message ''bad.bin'' ''invalid start byte''), Raise RecursionError]"
    by (simp add: run_events_def item_events_def visit_events_def demo_rules_eval demo_world_def
        demo_args_def demo_content_def ignored_iff path_join_def basename_def sep_def
        endswith_rev suffix_to_prefix)
  have b: "main_body ?w ?a demo_rules (Dir True False demo_content) =
      \<lparr>outf = (description ''proj'' @ [CHR 0x0A, CHR 0x0A]) # render_sections [(''a.txt'', ''hello'')],
       stdout = [''Skipping file bad.bin, reason: invalid start byte''],
       raised = Some RecursionError\<rparr>"
    unfolding main_body_events ev
    by (simp add: outf_write_def print_def raise_def demo_world_def section_chunks_def
        skip_message_def render_sections_def nl_def fence_def)
  show ?thesis
    unfolding main_outcome [OF t l o] rs b by simp
qed

lemma irregular_gitignore_not_loaded:
  "load_spec w [(''.gitignore'', File False fid r)] = Inr None"
  by (simp add: load_spec_def isfile_at_def)

section \<open>Properties\<close>

text \<open>
  C1. \<open>should_ignore\<close> is true exactly when the basename is in the name set, or the
  path ends with a member of the extension set, or the matcher is present and matches;
  and running the three checks in any order gives the same result.
\<close>

theorem should_ignore_is_disjunction:
  "should_ignore p m N E =
     (basename p \<in> N \<or> (\<exists>ext \<in> E. endswith p ext) \<or> (\<exists>s. m = Some s \<and> match_file s p))
   \<and> (\<forall>cs. mset cs = mset [ByName, ByExtension, ByPattern] \<longrightarrow>
          first_hit cs p m N E = should_ignore p m N E)"
proof (intro conjI allI impI)
  show "should_ignore p m N E =
     (basename p \<in> N \<or> (\<exists>ext \<in> E. endswith p ext) \<or> (\<exists>s. m = Some s \<and> match_file s p))"
    by (rule should_ignore_eq)
next
  fix cs assume "mset cs = mset [ByName, ByExtension, ByPattern]"
  then have "set cs = {ByName, ByExtension, ByPattern}"
    by (metis list.simps(15) mset_eq_setD empty_set)
  then show "first_hit cs p m N E = should_ignore p m N E"
    by (auto simp: first_hit_iff should_ignore_eq split: option.splits)
qed

theorem should_ignore_is_disjunction_witness:
  "should_ignore ''build/app.log'' None {''.git''} {''.log''}
   \<and> first_hit [ByPattern, ByExtension, ByName] ''build/app.log'' None {''.git''} {''.log''}
   \<and> \<not> should_ignore ''build/app.py'' None {''.git''} {''.log''}
   \<and> \<not> first_hit [ByPattern, ByExtension, ByName] ''build/app.py'' None {''.git''} {''.log''}"
  using should_ignore_is_disjunction [of "''build/app.log''" None "{''.git''}" "{''.log''}"]
    should_ignore_is_disjunction [of "''build/app.py''" None "{''.git''}" "{''.log''}"]
  by (simp add: basename_def sep_def endswith_rev)

text \<open>
  C6. A path that ends with a member of the extension set is ignored, whatever the
  matcher says; the test is on the whole relative path, so the path stays ignored
  under any directory it is joined to.
\<close>

theorem extension_suffix_ignored:
  "e \<in> E \<Longrightarrow> endswith p e \<Longrightarrow>
     should_ignore p m N E \<and> should_ignore (path_join d p) m N E"
  by (auto simp: should_ignore_eq dest: endswith_path_join)

theorem extension_suffix_ignored_witness:
  "''.log'' \<in> {''.log'', ''.tmp''} \<and> endswith ''app.log'' ''.log''
   \<and> should_ignore ''app.log'' None {} {''.log'', ''.tmp''}
   \<and> should_ignore (path_join ''a/b'' ''app.log'') None {} {''.log'', ''.tmp''}"
  using extension_suffix_ignored [of "''.log''" "{''.log'', ''.tmp''}" "''app.log''" None "{}" "''a/b''"]
  by (simp add: endswith_rev)

text \<open>
  C10. The extension test is a raw suffix comparison of characters: any path whose
  characters end in a member of the set is ignored, with no regard for a dot or a
  separator before the suffix. With \<open>log\<close> in the set, a file named \<open>catalog\<close> is ignored.
\<close>

theorem extension_is_raw_suffix:
  "(s \<in> E \<longrightarrow> should_ignore (q @ s) m N E)
   \<and> should_ignore ''catalog'' m N {''log''}"
proof
  show "s \<in> E \<longrightarrow> should_ignore (q @ s) m N E"
    using endswith_append [of q s] by (auto simp: should_ignore_eq)
next
  have "endswith ''catalog'' ''log''"
    using endswith_append [of "''cata''" "''log''"] by simp
  then show "should_ignore ''catalog'' m N {''log''}"
    by (simp add: should_ignore_eq)
qed

theorem extension_is_raw_suffix_witness:
  "''log'' \<in> {''log''} \<and> should_ignore (''src/cata'' @ ''log'') None {} {''log''}"
  using extension_is_raw_suffix [of "''log''" "{''log''}" "''src/cata''" None "{}"]
  by simp

text \<open>
  C2, as stated, fails. With \<open>.d\<close> passed as an ignored extension and no \<open>.gitignore\<close>,
  the directory \<open>conf.d\<close> is ignored by \<open>should_ignore\<close>, yet the content loop descends
  into it and writes the section of \<open>conf.d/x.txt\<close>: the loop prunes directories by name
  only (\<open>d not in extra_ignore_files\<close>).
\<close>

theorem walk_enters_directory_ignored_by_extension:
  "load_spec cx_world cx_content = Inr None
   \<and> ignored (run_rules cx_args cx_content None) ''conf.d''
   \<and> main cx_world cx_args =
       Inr \<lparr>outf = (description ''proj'' @ [CHR 0x0A, CHR 0x0A])
               # render_sections [(''conf.d/x.txt'', ''hi'')],
            stdout = [], raised = None\<rparr>"
  by (simp add: cx_world_def cx_args_def cx_content_def main_def main_body_def load_spec_def
      isfile_at_def run_rules_def name_set_def isdir_at_def emit_contents_def process_file_def
      outf_write_def section_chunks_def render_sections_def nl_def fence_def ignored_iff
      path_join_def basename_def sep_def endswith_rev suffix_to_prefix)

text \<open>
  C2, amended. During content emission the walk does not descend into a directory whose
  name is in the name set: no file it meets has such a directory among its ancestors,
  so no file beneath one is processed or emitted; and every file for which it writes
  a section or prints a message has a relative path that is not ignored. What the run
  wrote and printed when control leaves \<open>main\<close> is an initial part of the document and
  of the messages of these files, and all of both when no exception left \<open>main\<close>, which
  is the case when every write and print is taken and the recursion limit is not
  reached.
\<close>

theorem walk_prunes_named_directories:
  assumes "wf_node (Dir listable lnk content)"
    and "target w = Some (Dir listable lnk content)"
    and "load_spec w content = Inr sp"
    and "output_writable w"
  shows "let rs = run_rules a content sp; root_dir = Dir listable lnk content;
          walked = walk_files (\<lambda>d. d \<notin> extra_ignore_files rs) [] root_dir;
          vs = visited rs root_dir; b = main_body w a rs root_dir in
        main w a = (case raised b of None \<Rightarrow> Inr b | Some f \<Rightarrow> Inl f)
      \<and> prefix (outf b) (preamble w a rs root_dir @ render_sections (sections_of vs))
      \<and> prefix (stdout b) (render_skipped (skipped_of vs))
      \<and> (raised b = None \<longrightarrow>
            outf b = preamble w a rs root_dir @ render_sections (sections_of vs)
          \<and> stdout b = render_skipped (skipped_of vs))
      \<and> ((\<forall>t. outf_accepts w t) \<and> (\<forall>l. stdout_accepts w l)
          \<and> (\<forall>p. \<not> tree_overflows w p) \<and> (\<forall>p. \<not> walk_overflows w p) \<longrightarrow> raised b = None)
      \<and> set vs \<subseteq> set walked
      \<and> (\<forall>(p, x) \<in> set walked. \<forall>c \<in> set (butlast (parts p)). c \<notin> extra_ignore_files rs)
      \<and> (\<forall>(p, x) \<in> set vs. \<not> ignored rs p)"
proof -
  let ?rs = "run_rules a content sp"
  let ?root = "Dir listable lnk content"
  let ?vs = "visited ?rs ?root"
  let ?walked = "walk_files (\<lambda>d. d \<notin> extra_ignore_files ?rs) [] ?root"
  note out = run_outcome [OF assms(2-4), of a]
  have sub: "set ?vs \<subseteq> set ?walked"
    by (rule visited_subset)
  have anc: "\<forall>(p, x) \<in> set ?walked. \<forall>c \<in> set (butlast (parts p)). c \<notin> extra_ignore_files ?rs"
    using walk_files_ancestors [OF assms(1)] by blast
  have ni: "\<forall>(p, x) \<in> set ?vs. \<not> ignored ?rs p"
    using visited_parts(2) [OF assms(1)] by blast
  show ?thesis
    unfolding Let_def using out sub anc ni by blast
qed

theorem walk_prunes_named_directories_witness:
  "wf_node (Dir True False demo_content)
   \<and> target demo_world = Some (Dir True False demo_content)
   \<and> load_spec demo_world demo_content = Inr None
   \<and> output_writable demo_world
   \<and> (\<forall>t. outf_accepts demo_world t) \<and> (\<forall>l. stdout_accepts demo_world l)
   \<and> (\<forall>p. \<not> tree_overflows demo_world p) \<and> (\<forall>p. \<not> walk_overflows demo_world p)
   \<and> (''conf.d/x.txt'', File True 3 (Inr ''hi'')) \<in> set (visited demo_rules (Dir True False demo_content))
   \<and> (''conf.d/x.txt'', File True 3 (Inr ''hi''))
        \<in> set (walk_files (\<lambda>d. d \<notin> extra_ignore_files demo_rules) [] (Dir True False demo_content))
   \<and> ''conf.d'' \<in> set (butlast (parts ''conf.d/x.txt''))
   \<and> ''conf.d'' \<notin> extra_ignore_files demo_rules
   \<and> \<not> ignored demo_rules ''conf.d/x.txt''
   \<and> main demo_world demo_args =
        Inr (main_body demo_world demo_args demo_rules (Dir True False demo_content))
   \<and> outf (main_body demo_world demo_args demo_rules (Dir True False demo_content)) =
        preamble demo_world demo_args demo_rules (Dir True False demo_content)
        @ render_sections (sections_of (visited demo_rules (Dir True False demo_content)))
   \<and> stdout (main_body demo_world demo_args demo_rules (Dir True False demo_content)) =
        render_skipped (skipped_of (visited demo_rules (Dir True False demo_content)))"
proof -
  let ?b = "main_body demo_world demo_args demo_rules (Dir True False demo_content)"
  have v: "(''conf.d/x.txt'', File True 3 (Inr ''hi'')) \<in> set (visited demo_rules (Dir True False demo_content))"
    by (simp add: demo_visited)
  have b: "''conf.d'' \<in> set (butlast (parts ''conf.d/x.txt''))"
    by (simp add: parts_def sep_def)
  note t = walk_prunes_named_directories [OF demo_wf demo_target demo_load_spec demo_writable,
      of demo_args, unfolded Let_def demo_rules_def [symmetric]]
  from t demo_accepts have r: "raised ?b = None"
    by blast
  from t have "main demo_world demo_args = (case raised ?b of None \<Rightarrow> Inr ?b | Some f \<Rightarrow> Inl f)"
    by blast
  with r have m: "main demo_world demo_args = Inr ?b"
    by simp
  from t r have o: "outf ?b = preamble demo_world demo_args demo_rules (Dir True False demo_content)
        @ render_sections (sections_of (visited demo_rules (Dir True False demo_content)))"
    and s: "stdout ?b = render_skipped (skipped_of (visited demo_rules (Dir True False demo_content)))"
    by blast+
  from t v have w: "(''conf.d/x.txt'', File True 3 (Inr ''hi''))
      \<in> set (walk_files (\<lambda>d. d \<notin> extra_ignore_files demo_rules) [] (Dir True False demo_content))"
    by blast
  from t w b have "''conf.d'' \<notin> extra_ignore_files demo_rules"
    by blast
  moreover from t v have "\<not> ignored demo_rules ''conf.d/x.txt''"
    by blast
  ultimately show ?thesis
    using demo_wf demo_target demo_load_spec demo_writable demo_accepts v w b m o s by blast
qed



text \<open>
  C4. On the third example project the claim and the program part. The read of the
  first file fails, so the handler runs; the name of the file cannot be encoded for
  standard output, so the \<open>print\<close> of the handler raises, and nothing catches it:
  \<open>main\<close> ends with that exception. The document holds the description only: the
  readable, not ignored file \<open>z.txt\<close> listed after the bad one gets no section, and no
  diagnostic is printed. With a standard output that takes every line the same run
  returns, with the diagnostic printed and the section of \<open>z.txt\<close> written.
\<close>

theorem failed_print_aborts_run:
  "read_text (File True 1 (Inl ''Permission denied'')) = Inl ''Permission denied''
   \<and> read_text (File True 2 (Inr ''ok'')) = Inr ''ok''
   \<and> \<not> ignored (run_rules bad_args bad_content None) ''z.txt''
   \<and> main bad_world bad_args =
       Inl (PrintFailed (''Skipping file '' @ bad_name @ '', reason: Permission denied''))
   \<and> main_body bad_world bad_args (run_rules bad_args bad_content None) (Dir True False bad_content) =
       \<lparr>outf = [description ''proj'' @ [CHR 0x0A, CHR 0x0A]], stdout = [],
        raised = Some (PrintFailed (''Skipping file '' @ bad_name @ '', reason: Permission denied''))\<rparr>
   \<and> main bad_world_lenient bad_args =
       Inr \<lparr>outf = (description ''proj'' @ [CHR 0x0A, CHR 0x0A])
               # render_sections [(''z.txt'', ''ok'')],
            stdout = [''Skipping file '' @ bad_name @ '', reason: Permission denied''],
            raised = None\<rparr>"
proof -
  have t: "target bad_world = Some (Dir True False bad_content)"
      "target bad_world_lenient = Some (Dir True False bad_content)"
    and l: "load_spec bad_world bad_content = Inr None"
      "load_spec bad_world_lenient bad_content = Inr None"
    and o: "output_writable bad_world" "output_writable bad_world_lenient"
    by (simp_all add: bad_world_def bad_world_lenient_def load_spec_def isfile_at_def
        bad_content_def bad_name_def)
  have "\<not> ignored (run_rules bad_args bad_content None) ''z.txt''"
    unfolding bad_rules by (simp add: ignored_iff)
  moreover have "main bad_world bad_args =
       Inl (PrintFailed (''Skipping file '' @ bad_name @ '', reason: Permission denied''))"
    unfolding main_outcome [OF t(1) l(1) o(1)] bad_body by simp
  moreover have "main bad_world_lenient bad_args =
       Inr \<lparr>outf = (description ''proj'' @ [CHR 0x0A, CHR 0x0A])
               # render_sections [(''z.txt'', ''ok'')],
            stdout = [''Skipping file '' @ bad_name @ '', reason: Permission denied''],
            raised = None\<rparr>"
    unfolding main_outcome [OF t(2) l(2) o(2)] bad_body_lenient by simp
  ultimately show ?thesis
    using bad_body by simp
qed

text \<open>
  C5, as stated, fails. On the fourth example project one file is met under the names
  \<open>a.txt\<close> and \<open>b.txt\<close>; the run succeeds and the document holds two sections with the
  text of that one file, one per name: the program keeps no record of the files it has
  written.
\<close>

theorem file_under_two_names_has_two_sections:
  "resolve (Dir True False lk_content) ''a.txt'' = Some (File True 1 (Inr ''hello''))
   \<and> resolve (Dir True False lk_content) ''b.txt'' = Some (File True 1 (Inr ''hello''))
   \<and> main lk_world lk_args =
       Inr \<lparr>outf = (description ''proj'' @ [CHR 0x0A, CHR 0x0A])
               # render_sections [(''a.txt'', ''hello''), (''b.txt'', ''hello'')],
            stdout = [], raised = None\<rparr>"
proof -
  have t: "target lk_world = Some (Dir True False lk_content)"
    and l: "load_spec lk_world lk_content = Inr None"
    and o: "output_writable lk_world"
    by (simp_all add: lk_world_def load_spec_def isfile_at_def lk_content_def)
  have "main lk_world lk_args =
       Inr \<lparr>outf = (description ''proj'' @ [CHR 0x0A, CHR 0x0A])
               # render_sections [(''a.txt'', ''hello''), (''b.txt'', ''hello'')],
            stdout = [], raised = None\<rparr>"
    unfolding main_outcome [OF t l o] lk_body by simp
  then show ?thesis
    by (simp add: lk_content_def resolve_def parts_def sep_def)
qed

text \<open>
  C5, amended. After a successful run over well-formed directories, the document is the
  preamble followed by one section per relative path of a file that the walk met, did
  not ignore and could read, in the order of the walk, each section being its four
  chunks: the paths of the sections are pairwise different; each names a file under
  the scan root whose text is the section's content, and is not ignored; and every
  such file met by the walk has exactly one section under its path. A file met under
  several names has one section under each.
\<close>

theorem one_section_per_relative_path:
  assumes "wf_node (Dir listable lnk content)"
    and "target w = Some (Dir listable lnk content)"
    and "main w a = Inr r"
  shows "\<exists>sp. load_spec w content = Inr sp \<and>
     (let rs = run_rules a content sp; root_dir = Dir listable lnk content;
          secs = sections_of (visited rs root_dir) in
        outf r = preamble w a rs root_dir
          @ concat (map (\<lambda>(p, c).
              [''===== '' @ p @ '' ====='' @ [CHR 0x0A],
               [CHR 0x60, CHR 0x60, CHR 0x60, CHR 0x0A],
               c,
               [CHR 0x0A, CHR 0x60, CHR 0x60, CHR 0x60, CHR 0x0A, CHR 0x0A]]) secs)
      \<and> distinct (map fst secs)
      \<and> (\<forall>(p, c) \<in> set secs.
            (\<exists>regular fid. resolve root_dir p = Some (File regular fid (Inr c)))
          \<and> \<not> ignored rs p)
      \<and> (\<forall>(p, x) \<in> set (walk_files (\<lambda>d. d \<notin> extra_ignore_files rs) [] root_dir).
            \<forall>c. \<not> ignored rs p \<longrightarrow> read_text x = Inr c \<longrightarrow>
              filter (\<lambda>s. fst s = p) secs = [(p, c)]))"
proof -
  from main_Inr_D [OF assms(2,3)] obtain sp where sp: "load_spec w content = Inr sp"
    and r: "r = main_body w a (run_rules a content sp) (Dir listable lnk content)"
    and n: "raised (main_body w a (run_rules a content sp) (Dir listable lnk content)) = None"
    by blast
  let ?rs = "run_rules a content sp"
  let ?root = "Dir listable lnk content"
  let ?vs = "visited ?rs ?root"
  have o: "outf r = preamble w a ?rs ?root
      @ concat (map (\<lambda>(p, c).
          [''===== '' @ p @ '' ====='' @ [CHR 0x0A],
           [CHR 0x60, CHR 0x60, CHR 0x60, CHR 0x0A],
           c,
           [CHR 0x0A, CHR 0x60, CHR 0x60, CHR 0x60, CHR 0x0A, CHR 0x0A]]) (sections_of ?vs))"
    using body_complete(1) [OF n] unfolding r render_sections_def .
  have d: "distinct (map fst (sections_of ?vs))"
    using assms(1) by (intro sections_of_distinct visited_distinct)
  have e: "(\<exists>regular fid. resolve ?root p = Some (File regular fid (Inr c))) \<and> \<not> ignored ?rs p"
    if "(p, c) \<in> set (sections_of ?vs)" for p c
  proof -
    from that obtain x where x: "(p, x) \<in> set ?vs" "read_text x = Inr c"
      by (auto simp: sections_of_iff)
    from visited_parts(4) [OF assms(1) x(1)] x(2)
    obtain regular fid where "x = File regular fid (Inr c)"
      by (auto dest: not_dir_read)
    with visited_parts(2,3) [OF assms(1) x(1)] show ?thesis
      by blast
  qed
  have f: "filter (\<lambda>s. fst s = p) (sections_of ?vs) = [(p, c)]"
    if "(p, x) \<in> set (walk_files (\<lambda>d. d \<notin> extra_ignore_files ?rs) [] ?root)"
      "\<not> ignored ?rs p" "read_text x = Inr c" for p x c
  proof -
    from that have "(p, c) \<in> set (sections_of ?vs)"
      by (auto simp: sections_of_iff visited_def)
    with d show ?thesis by (rule filter_key_single)
  qed
  from sp o d e f show ?thesis
    unfolding Let_def by (intro exI [of _ sp]) blast
qed

theorem one_section_per_relative_path_witness:
  "wf_node (Dir True False demo_content)
   \<and> target demo_world = Some (Dir True False demo_content)
   \<and> main demo_world demo_args =
        Inr (main_body demo_world demo_args demo_rules (Dir True False demo_content))
   \<and> load_spec demo_world demo_content = Inr None
   \<and> outf (main_body demo_world demo_args demo_rules (Dir True False demo_content)) =
        preamble demo_world demo_args demo_rules (Dir True False demo_content)
        @ [''===== a.txt ====='' @ [CHR 0x0A],
           [CHR 0x60, CHR 0x60, CHR 0x60, CHR 0x0A],
           ''hello'',
           [CHR 0x0A, CHR 0x60, CHR 0x60, CHR 0x60, CHR 0x0A, CHR 0x0A],
           ''===== conf.d/x.txt ====='' @ [CHR 0x0A],
           [CHR 0x60, CHR 0x60, CHR 0x60, CHR 0x0A],
           ''hi'',
           [CHR 0x0A, CHR 0x60, CHR 0x60, CHR 0x60, CHR 0x0A, CHR 0x0A]]
   \<and> distinct [''a.txt'', ''conf.d/x.txt'']
   \<and> resolve (Dir True False demo_content) ''conf.d/x.txt'' = Some (File True 3 (Inr ''hi''))
   \<and> \<not> ignored demo_rules ''conf.d/x.txt''"
proof -
  from one_section_per_relative_path [OF demo_wf demo_target demo_main]
  obtain sp where sp: "load_spec demo_world demo_content = Inr sp"
    and c: "let rs = run_rules demo_args demo_content sp;
          root_dir = Dir True False demo_content; secs = sections_of (visited rs root_dir) in
        outf (main_body demo_world demo_args demo_rules (Dir True False demo_content)) =
          preamble demo_world demo_args rs root_dir
          @ concat (map (\<lambda>(p, c).
              [''===== '' @ p @ '' ====='' @ [CHR 0x0A],
               [CHR 0x60, CHR 0x60, CHR 0x60, CHR 0x0A],
               c,
               [CHR 0x0A, CHR 0x60, CHR 0x60, CHR 0x60, CHR 0x0A, CHR 0x0A]]) secs)
      \<and> distinct (map fst secs)
      \<and> (\<forall>(p, c) \<in> set secs.
            (\<exists>regular fid. resolve root_dir p = Some (File regular fid (Inr c)))
          \<and> \<not> ignored rs p)
      \<and> (\<forall>(p, x) \<in> set (walk_files (\<lambda>d. d \<notin> extra_ignore_files rs) [] root_dir).
            \<forall>c. \<not> ignored rs p \<longrightarrow> read_text x = Inr c \<longrightarrow>
              filter (\<lambda>s. fst s = p) secs = [(p, c)])"
    by blast
  from sp demo_load_spec have "sp = None" by simp
  with c [unfolded Let_def] demo_sections
  have "outf (main_body demo_world demo_args demo_rules (Dir True False demo_content)) =
        preamble demo_world demo_args demo_rules (Dir True False demo_content)
        @ [''===== a.txt ====='' @ [CHR 0x0A],
           [CHR 0x60, CHR 0x60, CHR 0x60, CHR 0x0A],
           ''hello'',
           [CHR 0x0A, CHR 0x60, CHR 0x60, CHR 0x60, CHR 0x0A, CHR 0x0A],
           ''===== conf.d/x.txt ====='' @ [CHR 0x0A],
           [CHR 0x60, CHR 0x60, CHR 0x60, CHR 0x0A],
           ''hi'',
           [CHR 0x0A, CHR 0x60, CHR 0x60, CHR 0x60, CHR 0x0A, CHR 0x0A]]
     \<and> distinct [''a.txt'', ''conf.d/x.txt'']
     \<and> \<not> ignored demo_rules ''conf.d/x.txt''"
    by (simp add: demo_rules_def [symmetric])
  moreover have "resolve (Dir True False demo_content) ''conf.d/x.txt'' = Some (File True 3 (Inr ''hi''))"
    by (simp add: resolve_def parts_def sep_def demo_content_def)
  ultimately show ?thesis
    using demo_wf demo_target demo_main demo_load_spec by blast
qed

text \<open>
  C7. When the scan root holds a directory \<open>.git\<close>, whatever the caller passes as ignore
  options, no row of the tree listing and no section of the document has a relative
  path that starts with the component \<open>.git\<close>. What the run wrote when control leaves
  \<open>main\<close> is an initial part of the preamble, which holds the tree listing, followed
  by these sections, and all of it when no exception left \<open>main\<close>.
\<close>

theorem git_directory_excluded:
  assumes "wf_node (Dir listable lnk content)"
    and "target w = Some (Dir listable lnk content)"
    and "load_spec w content = Inr sp"
    and "output_writable w"
    and "isdir_at content ''.git''"
  shows "let rs = run_rules a content sp; root_dir = Dir listable lnk content;
          rows = tree_rows rs root_dir [] []; vs = visited rs root_dir;
          secs = sections_of vs; b = main_body w a rs root_dir in
        main w a = (case raised b of None \<Rightarrow> Inr b | Some f \<Rightarrow> Inl f)
      \<and> prefix (outf b) (preamble w a rs root_dir @ render_sections secs)
      \<and> prefix (stdout b) (render_skipped (skipped_of vs))
      \<and> (raised b = None \<longrightarrow>
            outf b = preamble w a rs root_dir @ render_sections secs
          \<and> stdout b = render_skipped (skipped_of vs))
      \<and> ((\<forall>t. outf_accepts w t) \<and> (\<forall>l. stdout_accepts w l)
          \<and> (\<forall>p. \<not> tree_overflows w p) \<and> (\<forall>p. \<not> walk_overflows w p) \<longrightarrow> raised b = None)
      \<and> generate_tree rs root_dir [] [] = map row_line rows
      \<and> (\<forall>row \<in> set rows. take 1 (parts (row_rel row)) \<noteq> [''.git''])
      \<and> (\<forall>(p, c) \<in> set secs. take 1 (parts p) \<noteq> [''.git''])"
proof -
  let ?rs = "run_rules a content sp"
  let ?root = "Dir listable lnk content"
  let ?vs = "visited ?rs ?root"
  have g: "''.git'' \<in> extra_ignore_files ?rs"
    using assms(5) by (rule name_set_git)
  have hd_in: "take 1 cs \<noteq> [''.git'']" if "''.git'' \<notin> set cs" for cs :: "string list"
    using that by (cases cs) auto
  note out = run_outcome [OF assms(2-4), of a]
  have t: "generate_tree ?rs ?root [] [] = map row_line (tree_rows ?rs ?root [] [])"
    by (rule generate_tree_rows)
  have rw: "take 1 (parts (row_rel row)) \<noteq> [''.git'']"
    if "row \<in> set (tree_rows ?rs ?root [] [])" for row
  proof -
    have "set (parts (row_rel row)) \<inter> extra_ignore_files ?rs = {}"
      using assms(1) _ _ that by (rule tree_rows_parts) (simp_all add: clean_def parts_def)
    with g show ?thesis by (intro hd_in) auto
  qed
  have sc: "take 1 (parts p) \<noteq> [''.git'']" if "(p, c) \<in> set (sections_of ?vs)" for p c
  proof -
    from that obtain x where "(p, x) \<in> set ?vs"
      by (auto simp: sections_of_iff)
    from visited_parts(1) [OF assms(1) this] g show ?thesis
      by (intro hd_in) auto
  qed
  from rw have rw': "\<forall>row \<in> set (tree_rows ?rs ?root [] []). take 1 (parts (row_rel row)) \<noteq> [''.git'']"
    by blast
  from sc have sc': "\<forall>(p, c) \<in> set (sections_of ?vs). take 1 (parts p) \<noteq> [''.git'']"
    by blast
  show ?thesis
    unfolding Let_def using out t rw' sc' by blast
qed

theorem git_directory_excluded_witness:
  "wf_node (Dir True False demo_content)
   \<and> target demo_world = Some (Dir True False demo_content)
   \<and> load_spec demo_world demo_content = Inr None
   \<and> output_writable demo_world
   \<and> (\<forall>t. outf_accepts demo_world t) \<and> (\<forall>l. stdout_accepts demo_world l)
   \<and> (\<forall>p. \<not> tree_overflows demo_world p) \<and> (\<forall>p. \<not> walk_overflows demo_world p)
   \<and> isdir_at demo_content ''.git''
   \<and> (extension False, True, ''x.txt'', ''conf.d/x.txt'')
        \<in> set (tree_rows demo_rules (Dir True False demo_content) [] [])
   \<and> take 1 (parts (row_rel (extension False, True, ''x.txt'', ''conf.d/x.txt''))) \<noteq> [''.git'']
   \<and> (''a.txt'', ''hello'') \<in> set (sections_of (visited demo_rules (Dir True False demo_content)))
   \<and> take 1 (parts ''a.txt'') \<noteq> [''.git'']
   \<and> main demo_world demo_args =
        Inr (main_body demo_world demo_args demo_rules (Dir True False demo_content))
   \<and> outf (main_body demo_world demo_args demo_rules (Dir True False demo_content)) =
        preamble demo_world demo_args demo_rules (Dir True False demo_content)
        @ render_sections (sections_of (visited demo_rules (Dir True False demo_content)))
   \<and> generate_tree demo_rules (Dir True False demo_content) [] []
        = map row_line (tree_rows demo_rules (Dir True False demo_content) [] [])"
proof -
  let ?b = "main_body demo_world demo_args demo_rules (Dir True False demo_content)"
  have rw: "(extension False, True, ''x.txt'', ''conf.d/x.txt'')
        \<in> set (tree_rows demo_rules (Dir True False demo_content) [] [])"
    unfolding demo_rows by simp
  have sc: "(''a.txt'', ''hello'') \<in> set (sections_of (visited demo_rules (Dir True False demo_content)))"
    by (simp add: demo_sections)
  note t = git_directory_excluded [OF demo_wf demo_target demo_load_spec demo_writable demo_git,
      of demo_args, unfolded Let_def demo_rules_def [symmetric]]
  from t demo_accepts have r: "raised ?b = None"
    by blast
  from t have "main demo_world demo_args = (case raised ?b of None \<Rightarrow> Inr ?b | Some f \<Rightarrow> Inl f)"
    by blast
  with r have m: "main demo_world demo_args = Inr ?b"
    by simp
  from t r have o: "outf ?b = preamble demo_world demo_args demo_rules (Dir True False demo_content)
        @ render_sections (sections_of (visited demo_rules (Dir True False demo_content)))"
    by blast
  from t have g: "generate_tree demo_rules (Dir True False demo_content) [] []
        = map row_line (tree_rows demo_rules (Dir True False demo_content) [] [])"
    by blast
  from t rw
  have "take 1 (parts (row_rel (extension False, True, ''x.txt'', ''conf.d/x.txt''))) \<noteq> [''.git'']"
    by blast
  moreover from t sc have "take 1 (parts ''a.txt'') \<noteq> [''.git'']"
    by blast
  ultimately show ?thesis
    using demo_wf demo_target demo_load_spec demo_writable demo_accepts demo_git rw sc m o g by blast
qed

text \<open>
  C8. A directory that cannot be listed contributes no line of its own subtree: in its
  parent's listing it gives exactly its own line, and the entries before and after it
  are rendered as they are. A failed listing raises nothing: whatever directories
  cannot be listed, \<open>main\<close> returns when every write and print is taken and the
  recursion limit is not reached.
\<close>

theorem unlistable_directory_renders_nothing:
  "generate_tree rs (Dir False lnk content) current_rel pre = []
   \<and> (\<forall>kept i entry.
        kept = surviving rs rel siblings \<longrightarrow> i < length kept \<longrightarrow>
        kept ! i = (entry, Dir False lnk content) \<longrightarrow>
          generate_tree rs (Dir True lnk' siblings) rel pre' =
            concat (map (\<lambda>j. child_lines rs rel pre' (j = length kept - 1) (kept ! j)) [0..<i])
            @ [pre' @ connector (i = length kept - 1) @ entry]
            @ concat (map (\<lambda>j. child_lines rs rel pre' (j = length kept - 1) (kept ! j))
                [Suc i..<length kept]))
   \<and> (target w = Some (Dir listable lnk'' top_content) \<longrightarrow> load_spec w top_content = Inr sp \<longrightarrow>
        output_writable w \<longrightarrow> (\<forall>t. outf_accepts w t) \<longrightarrow> (\<forall>l. stdout_accepts w l) \<longrightarrow>
        (\<forall>p. \<not> tree_overflows w p) \<longrightarrow> (\<forall>p. \<not> walk_overflows w p) \<longrightarrow>
        (\<exists>r. main w a = Inr r))"
proof (intro conjI allI impI)
  show "generate_tree rs (Dir False lnk content) current_rel pre = []"
    by simp
next
  fix kept i entry
  assume k: "kept = surviving rs rel siblings" and i: "i < length kept"
    and e: "kept ! i = (entry, Dir False lnk content)"
  have "child_lines rs rel pre' (i = length kept - 1) (kept ! i)
      = [pre' @ connector (i = length kept - 1) @ entry]"
    by (simp add: e child_lines_def)
  with generate_tree_split_at [OF i k, of lnk' pre']
  show "generate_tree rs (Dir True lnk' siblings) rel pre' =
            concat (map (\<lambda>j. child_lines rs rel pre' (j = length kept - 1) (kept ! j)) [0..<i])
            @ [pre' @ connector (i = length kept - 1) @ entry]
            @ concat (map (\<lambda>j. child_lines rs rel pre' (j = length kept - 1) (kept ! j))
                [Suc i..<length kept])"
    by simp
next
  assume "target w = Some (Dir listable lnk'' top_content)" "load_spec w top_content = Inr sp"
    "output_writable w"
  moreover assume "\<forall>t. outf_accepts w t" "\<forall>l. stdout_accepts w l"
    "\<forall>p. \<not> tree_overflows w p" "\<forall>p. \<not> walk_overflows w p"
  ultimately show "\<exists>r. main w a = Inr r"
    using run_outcome(1,5) [of w listable lnk'' top_content sp a] by simp
qed

theorem unlistable_directory_renders_nothing_witness:
  "surviving demo_rules [] demo_content ! 3 = (''sub'', Dir False False [(''y'', File True 7 (Inr ''y''))])
   \<and> 3 < length (surviving demo_rules [] demo_content)
   \<and> generate_tree demo_rules (Dir False False [(''y'', File True 7 (Inr ''y''))]) ''sub'' ''    '' = []
   \<and> generate_tree demo_rules (Dir True False demo_content) [] [] =
        concat (map (\<lambda>j. child_lines demo_rules [] []
            (j = length (surviving demo_rules [] demo_content) - 1)
            (surviving demo_rules [] demo_content ! j)) [0..<3])
        @ [[] @ connector (3 = length (surviving demo_rules [] demo_content) - 1) @ ''sub'']
        @ concat (map (\<lambda>j. child_lines demo_rules [] []
            (j = length (surviving demo_rules [] demo_content) - 1)
            (surviving demo_rules [] demo_content ! j))
            [Suc 3..<length (surviving demo_rules [] demo_content)])
   \<and> target demo_world = Some (Dir True False demo_content)
   \<and> load_spec demo_world demo_content = Inr None
   \<and> output_writable demo_world
   \<and> (\<forall>t. outf_accepts demo_world t) \<and> (\<forall>l. stdout_accepts demo_world l)
   \<and> (\<forall>p. \<not> tree_overflows demo_world p) \<and> (\<forall>p. \<not> walk_overflows demo_world p)
   \<and> (\<exists>r. main demo_world demo_args = Inr r)"
proof -
  have k: "surviving demo_rules [] demo_content ! 3
      = (''sub'', Dir False False [(''y'', File True 7 (Inr ''y''))])"
    and l: "3 < length (surviving demo_rules [] demo_content)"
    by (simp_all add: demo_surviving)
  note t = unlistable_directory_renders_nothing [where rs = demo_rules and lnk = False
      and content = "[(''y'', File True 7 (Inr ''y''))]" and current_rel = "''sub''" and pre = "''    ''"
      and rel = "[]" and siblings = demo_content and lnk' = False and pre' = "[]"
      and w = demo_world and listable = True and lnk'' = False and top_content = demo_content
      and sp = None and a = demo_args]
  from t k l demo_target demo_load_spec demo_writable demo_accepts show ?thesis
    by blast
qed

text \<open>
  C9. When the scan root holds a directory \<open>.git\<close>, every path whose basename is
  \<open>.git\<close> is ignored, and no row of the tree listing and no file visited by the content
  loop has \<open>.git\<close> among the components of its relative path, at any depth. What the
  run wrote and printed when control leaves \<open>main\<close> is an initial part of the document
  and of the messages of the files visited, and all of both when no exception left
  \<open>main\<close>.
\<close>

theorem git_name_excluded_at_any_depth:
  assumes "wf_node (Dir listable lnk content)"
    and "target w = Some (Dir listable lnk content)"
    and "load_spec w content = Inr sp"
    and "output_writable w"
    and "isdir_at content ''.git''"
  shows "let rs = run_rules a content sp; root_dir = Dir listable lnk content;
          vs = visited rs root_dir; b = main_body w a rs root_dir in
        (\<forall>p. basename p = ''.git'' \<longrightarrow> ignored rs p)
      \<and> generate_tree rs root_dir [] [] = map row_line (tree_rows rs root_dir [] [])
      \<and> (\<forall>row \<in> set (tree_rows rs root_dir [] []). ''.git'' \<notin> set (parts (row_rel row)))
      \<and> (\<forall>(p, x) \<in> set vs. ''.git'' \<notin> set (parts p))
      \<and> main w a = (case raised b of None \<Rightarrow> Inr b | Some f \<Rightarrow> Inl f)
      \<and> prefix (outf b) (preamble w a rs root_dir @ render_sections (sections_of vs))
      \<and> prefix (stdout b) (render_skipped (skipped_of vs))
      \<and> (raised b = None \<longrightarrow>
            outf b = preamble w a rs root_dir @ render_sections (sections_of vs)
          \<and> stdout b = render_skipped (skipped_of vs))
      \<and> ((\<forall>t. outf_accepts w t) \<and> (\<forall>l. stdout_accepts w l)
          \<and> (\<forall>p. \<not> tree_overflows w p) \<and> (\<forall>p. \<not> walk_overflows w p) \<longrightarrow> raised b = None)"
proof -
  let ?rs = "run_rules a content sp"
  let ?root = "Dir listable lnk content"
  let ?vs = "visited ?rs ?root"
  have g: "''.git'' \<in> extra_ignore_files ?rs"
    using assms(5) by (rule name_set_git)
  then have i: "\<forall>p. basename p = ''.git'' \<longrightarrow> ignored ?rs p"
    by (simp add: ignored_iff)
  have t: "generate_tree ?rs ?root [] [] = map row_line (tree_rows ?rs ?root [] [])"
    by (rule generate_tree_rows)
  have rw: "''.git'' \<notin> set (parts (row_rel row))"
    if "row \<in> set (tree_rows ?rs ?root [] [])" for row
  proof -
    have "set (parts (row_rel row)) \<inter> extra_ignore_files ?rs = {}"
      using assms(1) _ _ that by (rule tree_rows_parts) (simp_all add: clean_def parts_def)
    with g show ?thesis by auto
  qed
  then have rw': "\<forall>row \<in> set (tree_rows ?rs ?root [] []). ''.git'' \<notin> set (parts (row_rel row))"
    by blast
  have vs: "''.git'' \<notin> set (parts p)" if "(p, x) \<in> set ?vs" for p x
    using visited_parts(1) [OF assms(1) that] g by auto
  then have vs': "\<forall>(p, x) \<in> set ?vs. ''.git'' \<notin> set (parts p)"
    by blast
  note out = run_outcome [OF assms(2-4), of a]
  show ?thesis
    unfolding Let_def using i t rw' vs' out by blast
qed

theorem git_name_excluded_at_any_depth_witness:
  "wf_node (Dir True False demo_content)
   \<and> target demo_world = Some (Dir True False demo_content)
   \<and> load_spec demo_world demo_content = Inr None
   \<and> output_writable demo_world
   \<and> (\<forall>t. outf_accepts demo_world t) \<and> (\<forall>l. stdout_accepts demo_world l)
   \<and> (\<forall>p. \<not> tree_overflows demo_world p) \<and> (\<forall>p. \<not> walk_overflows demo_world p)
   \<and> isdir_at demo_content ''.git''
   \<and> basename ''conf.d/.git'' = ''.git''
   \<and> ignored demo_rules ''conf.d/.git''
   \<and> (extension False, True, ''x.txt'', ''conf.d/x.txt'')
        \<in> set (tree_rows demo_rules (Dir True False demo_content) [] [])
   \<and> ''.git'' \<notin> set (parts (row_rel (extension False, True, ''x.txt'', ''conf.d/x.txt'')))
   \<and> (''conf.d/x.txt'', File True 3 (Inr ''hi'')) \<in> set (visited demo_rules (Dir True False demo_content))
   \<and> ''.git'' \<notin> set (parts ''conf.d/x.txt'')
   \<and> main demo_world demo_args =
        Inr (main_body demo_world demo_args demo_rules (Dir True False demo_content))"
proof -
  let ?b = "main_body demo_world demo_args demo_rules (Dir True False demo_content)"
  have b: "basename ''conf.d/.git'' = ''.git''"
    by (simp add: basename_def sep_def)
  have rw: "(extension False, True, ''x.txt'', ''conf.d/x.txt'')
        \<in> set (tree_rows demo_rules (Dir True False demo_content) [] [])"
    unfolding demo_rows by simp
  have v: "(''conf.d/x.txt'', File True 3 (Inr ''hi'')) \<in> set (visited demo_rules (Dir True False demo_content))"
    by (simp add: demo_visited)
  note t = git_name_excluded_at_any_depth [OF demo_wf demo_target demo_load_spec demo_writable
      demo_git, of demo_args, unfolded Let_def demo_rules_def [symmetric]]
  from t demo_accepts have r: "raised ?b = None"
    by blast
  from t have "main demo_world demo_args = (case raised ?b of None \<Rightarrow> Inr ?b | Some f \<Rightarrow> Inl f)"
    by blast
  with r have m: "main demo_world demo_args = Inr ?b"
    by simp
  from t b have "ignored demo_rules ''conf.d/.git''"
    by blast
  moreover from t rw
  have "''.git'' \<notin> set (parts (row_rel (extension False, True, ''x.txt'', ''conf.d/x.txt'')))"
    by blast
  moreover from t v have "''.git'' \<notin> set (parts ''conf.d/x.txt'')"
    by blast
  ultimately show ?thesis
    using demo_wf demo_target demo_load_spec demo_writable demo_accepts demo_git b rw v m by blast
qed

end
